theory Spec2Isabelle
  imports Main "HOL-Library.Multiset"
begin

section \<open>The file behind a handler\<close>

text \<open>
  Every operation of \<open>IniHandler\<close> opens the file at the handler's path, either with
  \<open>std::ifstream\<close> (whole file read line by line) or with \<open>std::ofstream\<close> (file
  truncated and rewritten). The file is modelled by its bytes, if it exists, and by whether
  the process may open it for reading and for writing.
\<close>

record file_state =
  content :: "string option"
  readable :: bool
  writable :: bool

definition open_in :: "file_state \<Rightarrow> string option" where
  \<comment> \<open>\<open>std::ifstream in(path)\<close>: \<open>None\<close> when \<open>in.is_open()\<close> is false.\<close>
  "open_in fs = (case content fs of None \<Rightarrow> None
                 | Some bytes \<Rightarrow> if readable fs then Some bytes else None)"

definition open_out :: "file_state \<Rightarrow> bool" where
  \<comment> \<open>\<open>std::ofstream out(path)\<close>: the value of \<open>out.is_open()\<close>.\<close>
  "open_out fs = writable fs"

definition write_out :: "file_state \<Rightarrow> string \<Rightarrow> file_state" where
  \<comment> \<open>The file after an opened \<open>std::ofstream\<close> has received \<open>bytes\<close> and was closed.\<close>
  "write_out fs bytes = fs\<lparr>content := Some bytes\<rparr>"

abbreviation nl :: char where
  "nl \<equiv> CHR 0x0A"

text \<open>
  \<open>while (std::getline(in, line))\<close>: the lines of the file, split at the newline
  character; a last line without newline is delivered when it is not empty.
\<close>

fun getlines_from :: "string \<Rightarrow> string \<Rightarrow> string list" where
  "getlines_from cur [] = (if cur = [] then [] else [cur])"
| "getlines_from cur (c # cs) =
     (if c = nl then cur # getlines_from [] cs else getlines_from (cur @ [c]) cs)"

definition getlines :: "string \<Rightarrow> string list" where
  "getlines bytes = getlines_from [] bytes"

text \<open>\<open>line.find('=')\<close>: the position of the first occurrence, \<open>None\<close> for \<open>npos\<close>.\<close>

fun find_char :: "char \<Rightarrow> string \<Rightarrow> nat option" where
  "find_char c [] = None"
| "find_char c (x # xs) = (if x = c then Some 0 else map_option Suc (find_char c xs))"

text \<open>\<open>s.substr(pos, n)\<close> and \<open>s.substr(pos)\<close>, for \<open>pos \<le> s.size()\<close>.\<close>

definition substr :: "string \<Rightarrow> nat \<Rightarrow> nat \<Rightarrow> string" where
  "substr s pos n = take n (drop pos s)"

definition substr_from :: "string \<Rightarrow> nat \<Rightarrow> string" where
  "substr_from s pos = drop pos s"

definition header_name :: "string \<Rightarrow> string" where
  \<comment> \<open>\<open>line.substr(1, line.size() - 2)\<close>; a header line has at least two characters, so the
     subtraction does not wrap.\<close>
  "header_name line = substr line 1 (length line - 2)"

definition is_header :: "string \<Rightarrow> bool" where
  \<comment> \<open>\<open>line.front() == '[' && line.back() == ']'\<close>, tested on a non-empty line.\<close>
  "is_header line = (hd line = CHR ''['' \<and> last line = CHR '']'')"

section \<open>The struct-based implementation\<close>

text \<open>
  The later implementation keeps the parsed file in \<open>file.sections\<close>, a vector of
  \<open>struct iniSection { name; entries; }\<close> with entries of \<open>struct iniEntry { name; value; }\<close>.
  The two \<open>name\<close> fields are \<open>ename\<close> and \<open>sname\<close> here, \<open>value\<close> is \<open>evalue\<close>. Every
  operation calls \<open>readAll()\<close> first and returns when it fails, so \<open>file.sections\<close> is
  never read from an earlier call, and the operations are functions of the file alone.
  The functions are those of the \<open>iniHandler.cpp\<close> with \<open>readEntry\<close> and \<open>writeEntry\<close>;
  the \<open>iniHandler.cpp\<close> that calls them \<open>readValue\<close> and \<open>writeValue\<close>, with the key and
  the value as two strings, has the same loops.
\<close>

record iniEntry =
  ename :: string
  evalue :: string

record iniSection =
  sname :: string
  entries :: "iniEntry list"

text \<open>
  One iteration of the loop of \<open>readAll()\<close>. The state is \<open>file.sections\<close> and
  \<open>currentSection\<close>, a pointer to an element of \<open>file.sections\<close> (its index) or null.
\<close>

definition parse_line :: "iniSection list \<times> nat option \<Rightarrow> string \<Rightarrow> iniSection list \<times> nat option" where
  "parse_line st line =
     (case st of (sections, currentSection) \<Rightarrow>
        if line = [] then st
        else if is_header line then
          (sections @ [\<lparr>sname = header_name line, entries = []\<rparr>],
           Some (length sections))
        else
          (case find_char CHR ''='' line of
             None \<Rightarrow> st
           | Some pos \<Rightarrow>
               (case currentSection of
                  None \<Rightarrow> st
                | Some i \<Rightarrow>
                    (sections[i := (sections ! i)\<lparr>entries := entries (sections ! i) @
                        [\<lparr>ename = substr line 0 pos, evalue = substr_from line (pos + 1)\<rparr>]\<rparr>],
                     currentSection))))"

definition parse_lines :: "string list \<Rightarrow> iniSection list" where
  "parse_lines ls = fst (foldl parse_line ([], None) ls)"

definition readAll :: "file_state \<Rightarrow> iniSection list option" where
  \<comment> \<open>\<open>None\<close> for the return value false; otherwise the new \<open>file.sections\<close>.\<close>
  "readAll fs = (case open_in fs of None \<Rightarrow> None
                 | Some bytes \<Rightarrow> Some (parse_lines (getlines bytes)))"

text \<open>The output loop shared by \<open>writeSection\<close> and \<open>writeEntry\<close>.\<close>

definition write_entry :: "iniEntry \<Rightarrow> string" where
  "write_entry e = ename e @ ''='' @ evalue e @ [nl]"

definition write_section :: "iniSection \<Rightarrow> string" where
  "write_section s = ''['' @ sname s @ '']'' @ [nl] @ concat (map write_entry (entries s)) @ [nl]"

definition write_sections :: "iniSection list \<Rightarrow> string" where
  "write_sections sections = concat (map write_section sections)"

text \<open>
  The first loop of \<open>writeSection\<close>: the entries of the first section of that name are
  replaced; the flag is \<open>found\<close>.
\<close>

fun replace_entries :: "iniSection list \<Rightarrow> iniSection \<Rightarrow> iniSection list \<times> bool" where
  "replace_entries [] section = ([], False)"
| "replace_entries (s # ss) section =
     (if sname s = sname section then (s\<lparr>entries := entries section\<rparr> # ss, True)
      else (case replace_entries ss section of (ss', found) \<Rightarrow> (s # ss', found)))"

definition put_section :: "iniSection list \<Rightarrow> iniSection \<Rightarrow> iniSection list" where
  \<comment> \<open>\<open>file.sections\<close> after the loop and \<open>if (!found) file.sections.push_back(section)\<close>.\<close>
  "put_section sections section =
     (case replace_entries sections section of
        (sections1, found) \<Rightarrow> if \<not> found then sections1 @ [section] else sections1)"

definition writeSection :: "file_state \<Rightarrow> iniSection \<Rightarrow> bool \<times> file_state" where
  "writeSection fs section =
     (case readAll fs of
        None \<Rightarrow> (False, fs)
      | Some sections \<Rightarrow>
          let sections2 = put_section sections section
          in if \<not> open_out fs then (False, fs)
             else (True, write_out fs (write_sections sections2)))"

fun section_nonempty :: "iniSection list \<Rightarrow> string \<Rightarrow> bool" where
  "section_nonempty [] n = False"
| "section_nonempty (s # ss) n = (if sname s = n then entries s \<noteq> [] else section_nonempty ss n)"

definition readSection :: "file_state \<Rightarrow> iniSection \<Rightarrow> bool" where
  "readSection fs section =
     (case readAll fs of None \<Rightarrow> False
      | Some sections \<Rightarrow> section_nonempty sections (sname section))"

text \<open>
  The loops of \<open>readEntry\<close>: the inner loop returns the value of the first entry of that
  name; when it finds none, \<open>break\<close> leaves the outer loop and the result is empty.
\<close>

fun entry_value :: "iniEntry list \<Rightarrow> string \<Rightarrow> string option" where
  "entry_value [] n = None"
| "entry_value (e # es) n = (if ename e = n then Some (evalue e) else entry_value es n)"

fun section_value :: "iniSection list \<Rightarrow> string \<Rightarrow> string \<Rightarrow> string" where
  "section_value [] section n = []"
| "section_value (s # ss) section n =
     (if sname s = section
      then (case entry_value (entries s) n of Some v \<Rightarrow> v | None \<Rightarrow> [])
      else section_value ss section n)"

definition readEntry :: "file_state \<Rightarrow> string \<Rightarrow> iniEntry \<Rightarrow> string" where
  "readEntry fs section entry =
     (case readAll fs of None \<Rightarrow> []
      | Some sections \<Rightarrow> section_value sections section (ename entry))"

definition readEntry_str :: "file_state \<Rightarrow> string \<Rightarrow> iniEntry \<Rightarrow> string" where
  "readEntry_str fs section k = readEntry fs section k"

text \<open>
  \<open>writeEntry\<close>: \<open>targetSection\<close> points to the first section of that name, or to a new
  empty section pushed at the back; the first entry of that name gets the new value, or
  the entry is pushed at the back of that section.
\<close>

fun find_section :: "iniSection list \<Rightarrow> string \<Rightarrow> nat option" where
  "find_section [] n = None"
| "find_section (s # ss) n = (if sname s = n then Some 0 else map_option Suc (find_section ss n))"

fun set_value :: "iniEntry list \<Rightarrow> iniEntry \<Rightarrow> iniEntry list \<times> bool" where
  "set_value [] entry = ([], False)"
| "set_value (e # es) entry =
     (if ename e = ename entry then (e\<lparr>evalue := evalue entry\<rparr> # es, True)
      else (case set_value es entry of (es', found) \<Rightarrow> (e # es', found)))"

definition put_entry :: "iniSection list \<Rightarrow> string \<Rightarrow> iniEntry \<Rightarrow> iniSection list" where
  \<comment> \<open>\<open>file.sections\<close> when \<open>writeEntry\<close> opens the output stream.\<close>
  "put_entry sections section entry =
     (case (case find_section sections section of
              Some i \<Rightarrow> (sections, i)
            | None \<Rightarrow> (sections @ [\<lparr>sname = section, entries = []\<rparr>], length sections)) of
        (sections1, target) \<Rightarrow>
          (case set_value (entries (sections1 ! target)) entry of
             (es, found) \<Rightarrow>
               sections1[target := (sections1 ! target)
                  \<lparr>entries := (if \<not> found then es @ [entry] else es)\<rparr>]))"

definition writeEntry :: "file_state \<Rightarrow> string \<Rightarrow> iniEntry \<Rightarrow> bool \<times> file_state" where
  "writeEntry fs section entry =
     (case readAll fs of
        None \<Rightarrow> (False, fs)
      | Some sections \<Rightarrow>
          let sections2 = put_entry sections section entry
          in if \<not> open_out fs then (False, fs)
             else (True, write_out fs (write_sections sections2)))"

definition writeEntry_str :: "file_state \<Rightarrow> string \<Rightarrow> string \<Rightarrow> string \<Rightarrow> bool \<times> file_state" where
  "writeEntry_str fs section k v =
     (case readAll fs of None \<Rightarrow> (False, fs)
      | Some sections \<Rightarrow> writeEntry fs section \<lparr>ename = k, evalue = v\<rparr>)"

section \<open>The \<open>std::unordered_map\<close>-based implementation\<close>

text \<open>
  The implementation of \<open>iniHandler.h\<close> proper keeps the parsed file in a
  \<open>std::unordered_map\<close> from section names to vectors of \<open>std::pair\<close>s of strings. The
  container is modelled by the list of its elements in the order of their insertion, the
  keys being distinct. What the C++ standard leaves open, the order in which a range-for
  visits the elements, is a parameter of the model: a function from the container (with
  its history of insertions) to the sequence visited.
\<close>

type_synonym kv = "string \<times> string"

type_synonym umap = "(string \<times> kv list) list"

definition iteration_order :: "(umap \<Rightarrow> umap) \<Rightarrow> bool" where
  \<comment> \<open>An iteration visits every element of the container exactly once.\<close>
  "iteration_order ord = (\<forall>m. mset (ord m) = mset m)"

definition um_count :: "umap \<Rightarrow> string \<Rightarrow> bool" where
  \<comment> \<open>\<open>m.count(k)\<close> as a condition.\<close>
  "um_count m k = (map_of m k \<noteq> None)"

definition um_at :: "umap \<Rightarrow> string \<Rightarrow> kv list" where
  \<comment> \<open>\<open>m[k]\<close> read where \<open>k\<close> is present.\<close>
  "um_at m k = (case map_of m k of Some es \<Rightarrow> es | None \<Rightarrow> [])"

fun um_emplace_back :: "umap \<Rightarrow> string \<Rightarrow> kv \<Rightarrow> umap" where
  \<comment> \<open>\<open>m[k].emplace_back(key, value)\<close>: a missing \<open>k\<close> is inserted with an empty vector first.\<close>
  "um_emplace_back [] k e = [(k, [e])]"
| "um_emplace_back ((n, es) # m) k e =
     (if n = k then (n, es @ [e]) # m else (n, es) # um_emplace_back m k e)"

fun um_assign :: "umap \<Rightarrow> string \<Rightarrow> kv list \<Rightarrow> umap" where
  \<comment> \<open>\<open>m[k] = entries\<close> (the vector is \<open>ents\<close> here).\<close>
  "um_assign [] k ents = [(k, ents)]"
| "um_assign ((n, es) # m) k ents =
     (if n = k then (n, ents) # m else (n, es) # um_assign m k ents)"

definition parse_line_map :: "umap \<times> string \<Rightarrow> string \<Rightarrow> umap \<times> string" where
  \<comment> \<open>One iteration of the loop of \<open>readAll(outData)\<close>; the state is \<open>outData\<close> and \<open>currentSection\<close>.\<close>
  "parse_line_map st line =
     (case st of (outData, currentSection) \<Rightarrow>
        if line = [] then st
        else if is_header line then (outData, header_name line)
        else
          (case find_char CHR ''='' line of
             None \<Rightarrow> st
           | Some pos \<Rightarrow>
               (um_emplace_back outData currentSection
                  (substr line 0 pos, substr_from line (pos + 1)),
                currentSection)))"

definition parse_lines_map :: "string list \<Rightarrow> umap" where
  "parse_lines_map ls = fst (foldl parse_line_map ([], []) ls)"

definition readAll_map :: "file_state \<Rightarrow> umap option" where
  \<comment> \<open>\<open>None\<close> for the return value false, which leaves \<open>outData\<close> as it was.\<close>
  "readAll_map fs = (case open_in fs of None \<Rightarrow> None
                     | Some bytes \<Rightarrow> Some (parse_lines_map (getlines bytes)))"

definition write_kv :: "kv \<Rightarrow> string" where
  "write_kv e = fst e @ ''='' @ snd e @ [nl]"

definition write_map_section :: "string \<times> kv list \<Rightarrow> string" where
  "write_map_section s = ''['' @ fst s @ '']'' @ [nl] @ concat (map write_kv (snd s)) @ [nl]"

definition write_map :: "umap \<Rightarrow> string" where
  \<comment> \<open>The output loop of \<open>writeSection\<close> over the elements in the order visited.\<close>
  "write_map visited = concat (map write_map_section visited)"

definition load_map :: "file_state \<Rightarrow> umap" where
  \<comment> \<open>A fresh \<open>allData\<close> after \<open>readAll(allData)\<close>, whose result is not tested: empty on failure.\<close>
  "load_map fs = (case readAll_map fs of None \<Rightarrow> [] | Some m \<Rightarrow> m)"

definition writeSection_map ::
  "(umap \<Rightarrow> umap) \<Rightarrow> file_state \<Rightarrow> string \<Rightarrow> kv list \<Rightarrow> bool \<times> file_state" where
  "writeSection_map ord fs section ents =
     (let allData = um_assign (load_map fs) section ents
      in if \<not> open_out fs then (False, fs)
         else (True, write_out fs (write_map (ord allData))))"

definition readSection_map :: "file_state \<Rightarrow> string \<Rightarrow> kv list \<Rightarrow> bool \<times> kv list" where
  \<comment> \<open>The result is the return value and the final \<open>outEntries\<close>.\<close>
  "readSection_map fs section outEntries =
     (case readAll_map fs of
        None \<Rightarrow> (False, outEntries)
      | Some allData \<Rightarrow>
          if um_count allData section then (True, um_at allData section) else (False, []))"

fun kv_value :: "kv list \<Rightarrow> string \<Rightarrow> string" where
  "kv_value [] k = []"
| "kv_value (e # es) k = (if fst e = k then snd e else kv_value es k)"

definition readValue_map :: "file_state \<Rightarrow> string \<Rightarrow> string \<Rightarrow> string" where
  "readValue_map fs section k =
     (case readAll_map fs of
        None \<Rightarrow> []
      | Some allData \<Rightarrow>
          if \<not> um_count allData section then [] else kv_value (um_at allData section) k)"

fun set_kv :: "kv list \<Rightarrow> string \<Rightarrow> string \<Rightarrow> kv list \<times> bool" where
  "set_kv [] k v = ([], False)"
| "set_kv (e # es) k v =
     (if fst e = k then ((fst e, v) # es, True)
      else (case set_kv es k v of (es', found) \<Rightarrow> (e # es', found)))"

definition writeValue_map ::
  "(umap \<Rightarrow> umap) \<Rightarrow> file_state \<Rightarrow> string \<Rightarrow> string \<Rightarrow> string \<Rightarrow> bool \<times> file_state" where
  \<comment> \<open>the vector \<open>entries\<close> (here \<open>ents\<close>) starts empty; the return value of \<open>readSection\<close> is not tested.\<close>
  "writeValue_map ord fs section k v =
     (case set_kv (snd (readSection_map fs section [])) k v of
        (ents, found) \<Rightarrow>
          writeSection_map ord fs section (if \<not> found then ents @ [(k, v)] else ents))"

section \<open>The sections of a file, line by line\<close>

text \<open>
  The key=value lines of a file that stand under a header line of the name \<open>n\<close>, as pairs
  of key and value in the order of the file. The lines before the first header line
  stand under the empty name, and so do the lines under a header \<open>[]\<close>. This speaks of the
  lines of the file only, not of a container.
\<close>

fun lines_under :: "string \<Rightarrow> string \<Rightarrow> string list \<Rightarrow> kv list" where
  "lines_under n cur [] = []"
| "lines_under n cur (l # ls) =
     (if l = [] then lines_under n cur ls
      else if is_header l then lines_under n (header_name l) ls
      else (case find_char CHR ''='' l of
              None \<Rightarrow> lines_under n cur ls
            | Some pos \<Rightarrow>
                (if cur = n then [(substr l 0 pos, substr_from l (pos + 1))] else [])
                @ lines_under n cur ls))"

definition file_entries :: "string \<Rightarrow> string \<Rightarrow> kv list" where
  "file_entries n bytes = lines_under n [] (getlines bytes)"

section \<open>Lines and well-formed data\<close>

text \<open>
  The bytes of a sequence of lines, each ended by a newline; the lines that the output
  loops produce for one section; and the sections and entries that come back unchanged
  when their lines are parsed again. Every section and entry delivered by the parsers is
  of that kind.
\<close>

definition lines_bytes :: "string list \<Rightarrow> string" where
  "lines_bytes ls = concat (map (\<lambda>l. l @ [nl]) ls)"

definition header_line :: "string \<Rightarrow> string" where
  "header_line n = ''['' @ n @ '']''"

definition kv_line :: "string \<Rightarrow> string \<Rightarrow> string" where
  "kv_line k v = k @ ''='' @ v"

definition wf_kv :: "string \<Rightarrow> string \<Rightarrow> bool" where
  "wf_kv k v = (nl \<notin> set k \<and> nl \<notin> set v \<and> CHR ''='' \<notin> set k \<and> \<not> is_header (kv_line k v))"

definition section_lines :: "iniSection \<Rightarrow> string list" where
  "section_lines s =
     header_line (sname s) # map (\<lambda>e. kv_line (ename e) (evalue e)) (entries s) @ [[]]"

definition wf_entry :: "iniEntry \<Rightarrow> bool" where
  "wf_entry e = wf_kv (ename e) (evalue e)"

definition wf_section :: "iniSection \<Rightarrow> bool" where
  "wf_section s = (nl \<notin> set (sname s) \<and> list_all wf_entry (entries s))"

definition map_section_lines :: "string \<times> kv list \<Rightarrow> string list" where
  "map_section_lines s = header_line (fst s) # map (\<lambda>e. kv_line (fst e) (snd e)) (snd s) @ [[]]"

definition wf_map_section :: "string \<times> kv list \<Rightarrow> bool" where
  "wf_map_section s = (nl \<notin> set (fst s) \<and> snd s \<noteq> [] \<and> list_all (\<lambda>e. wf_kv (fst e) (snd e)) (snd s))"

definition wf_map :: "umap \<Rightarrow> bool" where
  "wf_map m = (distinct (map fst m) \<and> list_all wf_map_section m)"

definition back_index :: "iniSection list \<Rightarrow> nat option" where
  \<comment> \<open>The value of \<open>currentSection\<close> during \<open>readAll()\<close>: null, or \<open>&file.sections.back()\<close>.\<close>
  "back_index sections = (if sections = [] then None else Some (length sections - 1))"

subsection \<open>Lines\<close>

lemma getlines_from_line:
  "nl \<notin> set l \<Longrightarrow> getlines_from cur (l @ nl # rest) = (cur @ l) # getlines_from [] rest"
  by (induction l arbitrary: cur) auto

lemma getlines_lines_bytes:
  "\<forall>l\<in>set ls. nl \<notin> set l \<Longrightarrow> getlines (lines_bytes ls) = ls"
proof (induction ls)
  case Nil
  then show ?case by (simp add: getlines_def lines_bytes_def)
next
  case (Cons l ls)
  have "getlines (lines_bytes (l # ls)) = getlines_from [] (l @ nl # lines_bytes ls)"
    by (simp add: getlines_def lines_bytes_def)
  also have "\<dots> = l # getlines_from [] (lines_bytes ls)"
    using Cons.prems getlines_from_line [of l "[]"] by simp
  finally show ?case using Cons by (simp add: getlines_def)
qed

lemma getlines_from_no_nl:
  "l \<in> set (getlines_from cur bytes) \<Longrightarrow> nl \<notin> set cur \<Longrightarrow> nl \<notin> set l"
  by (induction cur bytes rule: getlines_from.induct) (auto split: if_splits)

lemma getlines_no_nl: "l \<in> set (getlines bytes) \<Longrightarrow> nl \<notin> set l"
  unfolding getlines_def using getlines_from_no_nl [of l "[]" bytes] by simp

subsection \<open>Finding the separator\<close>

lemma find_char_None: "find_char c s = None \<longleftrightarrow> c \<notin> set s"
  by (induction s) auto

lemma find_char_Some:
  "find_char c s = Some pos \<Longrightarrow> pos < length s \<and> s ! pos = c \<and> c \<notin> set (take pos s)"
  by (induction s arbitrary: pos) (auto split: if_splits)

lemma find_char_split:
  "find_char c s = Some pos \<Longrightarrow> s = take pos s @ c # drop (Suc pos) s"
  using find_char_Some [of c s pos] id_take_nth_drop [of pos s] by auto

lemma find_char_append: "c \<notin> set k \<Longrightarrow> find_char c (k @ c # v) = Some (length k)"
  by (induction k) auto

subsection \<open>Lines of the output\<close>

lemma header_line_parse:
  "header_line n \<noteq> [] \<and> is_header (header_line n)
   \<and> header_name (header_line n) = n"
  by (simp add: header_line_def is_header_def header_name_def substr_def)

lemma kv_line_parse:
  assumes "wf_kv k v"
  shows "kv_line k v \<noteq> []" "\<not> is_header (kv_line k v)"
    "find_char CHR ''='' (kv_line k v) = Some (length k)"
    "substr (kv_line k v) 0 (length k) = k"
    "substr_from (kv_line k v) (length k + 1) = v"
  using assms by (simp_all add: wf_kv_def kv_line_def find_char_append substr_def substr_from_def)

lemma parsed_kv_wf:
  assumes "nl \<notin> set line" "\<not> is_header line" "find_char CHR ''='' line = Some pos"
  shows "wf_kv (substr line 0 pos) (substr_from line (pos + 1))"
proof -
  have s: "line = take pos line @ CHR ''='' # drop (Suc pos) line"
    using assms(3) by (rule find_char_split)
  then have "kv_line (take pos line) (drop (Suc pos) line) = line"
    by (simp add: kv_line_def)
  moreover have "CHR ''='' \<notin> set (take pos line)"
    using find_char_Some [OF assms(3)] by simp
  moreover have "nl \<notin> set (take pos line)" "nl \<notin> set (drop (Suc pos) line)"
    using assms(1) by (auto dest: in_set_takeD in_set_dropD)
  ultimately show ?thesis
    using assms(2) by (simp add: wf_kv_def substr_def substr_from_def)
qed

lemma parsed_name_no_nl: "nl \<notin> set line \<Longrightarrow> nl \<notin> set (header_name line)"
  by (auto simp: header_name_def substr_def dest: in_set_takeD in_set_dropD)

subsection \<open>The struct-based parser on the output of the struct-based writer\<close>

lemma parse_line_empty: "parse_line st [] = st"
  by (simp add: parse_line_def split: prod.splits)

lemma parse_line_header:
  "parse_line (secs, c) (header_line n) = (secs @ [\<lparr>sname = n, entries = []\<rparr>], Some (length secs))"
  using header_line_parse [of n] by (simp add: parse_line_def)

lemma parse_line_kv:
  assumes "wf_kv k v"
  shows "parse_line (secs, Some i) (kv_line k v) =
    (secs[i := (secs ! i)\<lparr>entries := entries (secs ! i) @ [\<lparr>ename = k, evalue = v\<rparr>]\<rparr>], Some i)"
  using kv_line_parse [OF assms] by (simp add: parse_line_def)

lemma parse_entry_lines:
  "list_all wf_entry es \<Longrightarrow>
   foldl parse_line (acc @ [s], Some (length acc)) (map (\<lambda>e. kv_line (ename e) (evalue e)) es)
     = (acc @ [s\<lparr>entries := entries s @ es\<rparr>], Some (length acc))"
proof (induction es arbitrary: s)
  case Nil
  then show ?case by simp
next
  case (Cons e es)
  have "wf_kv (ename e) (evalue e)" using Cons.prems by (simp add: wf_entry_def)
  then have "parse_line (acc @ [s], Some (length acc)) (kv_line (ename e) (evalue e))
      = (acc @ [s\<lparr>entries := entries s @ [e]\<rparr>], Some (length acc))"
    by (simp add: parse_line_kv)
  then show ?case using Cons.IH [of "s\<lparr>entries := entries s @ [e]\<rparr>"] Cons.prems by simp
qed

lemma parse_section_lines:
  assumes "wf_section s"
  shows "foldl parse_line (acc, c) (section_lines s) = (acc @ [s], Some (length acc))"
proof -
  have "list_all wf_entry (entries s)" using assms by (simp add: wf_section_def)
  from parse_entry_lines [OF this, of acc "\<lparr>sname = sname s, entries = []\<rparr>"]
  show ?thesis by (simp add: section_lines_def parse_line_header parse_line_empty)
qed

lemma parse_sections_lines:
  "list_all wf_section secs \<Longrightarrow>
   fst (foldl parse_line (acc, c) (concat (map section_lines secs))) = acc @ secs"
proof (induction secs arbitrary: acc c)
  case Nil
  then show ?case by simp
next
  case (Cons s secs)
  then show ?case by (simp add: parse_section_lines)
qed

lemma write_entries_lines:
  "concat (map write_entry es) = lines_bytes (map (\<lambda>e. kv_line (ename e) (evalue e)) es)"
  by (induction es) (simp_all add: write_entry_def lines_bytes_def kv_line_def)

lemma lines_bytes_append: "lines_bytes (xs @ ys) = lines_bytes xs @ lines_bytes ys"
  by (simp add: lines_bytes_def)

lemma write_section_lines: "write_section s = lines_bytes (section_lines s)"
  by (simp add: write_section_def section_lines_def write_entries_lines lines_bytes_append)
     (simp add: lines_bytes_def header_line_def)

lemma write_sections_lines: "write_sections secs = lines_bytes (concat (map section_lines secs))"
  by (induction secs) (simp_all add: write_sections_def write_section_lines lines_bytes_append, simp add: lines_bytes_def)

lemma wf_kv_no_nl: "wf_kv k v \<Longrightarrow> nl \<notin> set (kv_line k v)"
  by (auto simp: wf_kv_def kv_line_def)

lemma section_lines_no_nl: "wf_section s \<Longrightarrow> l \<in> set (section_lines s) \<Longrightarrow> nl \<notin> set l"
  by (auto simp: section_lines_def wf_section_def header_line_def list_all_iff wf_entry_def
      dest: wf_kv_no_nl)

lemma parse_write_sections:
  assumes "list_all wf_section secs"
  shows "parse_lines (getlines (write_sections secs)) = secs"
proof -
  have "\<forall>l\<in>set (concat (map section_lines secs)). nl \<notin> set l"
    using assms by (auto simp: list_all_iff dest: section_lines_no_nl)
  then have "getlines (write_sections secs) = concat (map section_lines secs)"
    by (simp add: write_sections_lines getlines_lines_bytes)
  then show ?thesis
    using parse_sections_lines [OF assms, of "[]" None] by (simp add: parse_lines_def)
qed

lemma readAll_write_out:
  "list_all wf_section secs \<Longrightarrow> readable fs \<Longrightarrow>
   readAll (write_out fs (write_sections secs)) = Some secs"
  by (simp add: readAll_def open_in_def write_out_def parse_write_sections)

subsection \<open>What the struct-based parser delivers\<close>

lemma list_all_update: "list_all P xs \<Longrightarrow> P y \<Longrightarrow> list_all P (xs[i := y])"
  using set_update_subset_insert [of xs i y] by (auto simp: list_all_iff)

lemma parse_line_back:
  assumes "c = back_index secs" "parse_line (secs, c) line = (secs', c')"
  shows "c' = back_index secs'"
  using assms
  by (auto simp: parse_line_def back_index_def split: if_splits option.splits)

lemma parse_line_wf:
  assumes "nl \<notin> set line" "list_all wf_section secs" "c = back_index secs"
    "parse_line (secs, c) line = (secs', c')"
  shows "list_all wf_section secs'"
proof (cases "line = [] \<or> is_header line \<or> find_char CHR ''='' line = None \<or> c = None")
  case True
  then show ?thesis
    using assms
    by (auto simp: parse_line_def wf_section_def parsed_name_no_nl split: if_splits option.splits)
next
  case False
  then obtain pos i where p: "find_char CHR ''='' line = Some pos" and i: "c = Some i"
    and nh: "\<not> is_header line" and ne: "line \<noteq> []"
    by auto
  have il: "i < length secs" using i assms(3) by (auto simp: back_index_def split: if_splits)
  have wf: "wf_kv (substr line 0 pos) (substr_from line (pos + 1))"
    using parsed_kv_wf [OF assms(1) nh p] .
  have "secs' = secs[i := (secs ! i)\<lparr>entries := entries (secs ! i) @
      [\<lparr>ename = substr line 0 pos, evalue = substr_from line (pos + 1)\<rparr>]\<rparr>]"
    using assms(4) p i nh ne by (simp add: parse_line_def)
  moreover have "wf_section (secs ! i)"
    using assms(2) il by (simp add: list_all_length)
  then have "wf_section ((secs ! i)\<lparr>entries := entries (secs ! i) @
      [\<lparr>ename = substr line 0 pos, evalue = substr_from line (pos + 1)\<rparr>]\<rparr>)"
    using wf by (simp add: wf_section_def wf_entry_def)
  ultimately show ?thesis
    using assms(2) by (simp add: list_all_update)
qed

lemma foldl_parse_line_wf:
  "\<forall>l\<in>set ls. nl \<notin> set l \<Longrightarrow> list_all wf_section secs \<Longrightarrow>
   list_all wf_section (fst (foldl parse_line (secs, back_index secs) ls))"
proof (induction ls arbitrary: secs)
  case Nil
  then show ?case by simp
next
  case (Cons l ls)
  obtain secs' c' where st: "parse_line (secs, back_index secs) l = (secs', c')"
    by (cases "parse_line (secs, back_index secs) l")
  have "c' = back_index secs'" using parse_line_back [OF refl st] .
  moreover have "list_all wf_section secs'"
    using parse_line_wf [OF _ Cons.prems(2) refl st] Cons.prems(1) by simp
  ultimately show ?case using Cons.IH [of secs'] Cons.prems(1) st by simp
qed

lemma parse_lines_wf: "\<forall>l\<in>set ls. nl \<notin> set l \<Longrightarrow> list_all wf_section (parse_lines ls)"
  using foldl_parse_line_wf [of ls "[]"] by (simp add: parse_lines_def back_index_def)

lemma readAll_wf: "readAll fs = Some secs \<Longrightarrow> list_all wf_section secs"
  by (auto simp: readAll_def parse_lines_wf getlines_no_nl split: option.splits)

lemma readAll_readable: "readAll fs = Some secs \<Longrightarrow> readable fs"
  by (auto simp: readAll_def open_in_def split: option.splits if_splits)

subsection \<open>The searches of the struct-based implementation\<close>

lemma first_section_cases:
  obtains (absent) "\<forall>s\<in>set secs. sname s \<noteq> n"
  | (first) pre b post where "secs = pre @ b # post" "\<forall>s\<in>set pre. sname s \<noteq> n" "sname b = n"
proof (cases "\<exists>s\<in>set secs. sname s = n")
  case True
  from split_list_first_prop [OF this] show ?thesis using first by blast
next
  case False
  then show ?thesis using absent by blast
qed

lemma replace_entries_absent:
  "\<forall>s\<in>set secs. sname s \<noteq> sname sec \<Longrightarrow> replace_entries secs sec = (secs, False)"
  by (induction secs) auto

lemma replace_entries_first:
  "\<forall>s\<in>set pre. sname s \<noteq> sname sec \<Longrightarrow> sname b = sname sec \<Longrightarrow>
   replace_entries (pre @ b # post) sec = (pre @ b\<lparr>entries := entries sec\<rparr> # post, True)"
  by (induction pre) auto

lemma put_section_absent:
  "\<forall>s\<in>set secs. sname s \<noteq> sname sec \<Longrightarrow> put_section secs sec = secs @ [sec]"
  by (simp add: put_section_def replace_entries_absent)

lemma put_section_first:
  "\<forall>s\<in>set pre. sname s \<noteq> sname sec \<Longrightarrow> sname b = sname sec \<Longrightarrow>
   put_section (pre @ b # post) sec = pre @ b\<lparr>entries := entries sec\<rparr> # post"
  by (simp add: put_section_def replace_entries_first)

lemma find_section_absent: "\<forall>s\<in>set secs. sname s \<noteq> n \<Longrightarrow> find_section secs n = None"
  by (induction secs) auto

lemma find_section_first:
  "\<forall>s\<in>set pre. sname s \<noteq> n \<Longrightarrow> sname b = n \<Longrightarrow> find_section (pre @ b # post) n = Some (length pre)"
  by (induction pre) auto

lemma set_value_absent:
  "\<forall>x\<in>set es. ename x \<noteq> ename e \<Longrightarrow> set_value es e = (es, False)"
  by (induction es) auto

lemma set_value_first:
  "\<forall>y\<in>set epre. ename y \<noteq> ename e \<Longrightarrow> ename x = ename e \<Longrightarrow>
   set_value (epre @ x # epost) e = (epre @ x\<lparr>evalue := evalue e\<rparr> # epost, True)"
  by (induction epre) auto

lemma put_entry_absent:
  "\<forall>s\<in>set secs. sname s \<noteq> n \<Longrightarrow> put_entry secs n e = secs @ [\<lparr>sname = n, entries = [e]\<rparr>]"
  by (simp add: put_entry_def find_section_absent)

lemma put_entry_first:
  "\<forall>s\<in>set pre. sname s \<noteq> n \<Longrightarrow> sname b = n \<Longrightarrow>
   put_entry (pre @ b # post) n e =
     pre @ b\<lparr>entries := (case set_value (entries b) e of
                            (es, found) \<Rightarrow> if \<not> found then es @ [e] else es)\<rparr> # post"
  by (simp add: put_entry_def find_section_first split: prod.splits)

lemma set_value_again:
  "set_value es e = (es1, found) \<Longrightarrow>
   set_value (if \<not> found then es1 @ [e] else es1) e = (if \<not> found then es1 @ [e] else es1, True)"
proof (induction es arbitrary: es1 found)
  case Nil
  then show ?case by auto
next
  case (Cons x es)
  show ?case
  proof (cases "ename x = ename e")
    case True
    then show ?thesis using Cons.prems by auto
  next
    case False
    obtain es2 f2 where r: "set_value es e = (es2, f2)" by (cases "set_value es e")
    then have "es1 = x # es2" "found = f2" using Cons.prems False by auto
    then show ?thesis using Cons.IH [OF r] False by (auto split: if_splits)
  qed
qed

lemma put_entry_again: "put_entry (put_entry secs n e) n e = put_entry secs n e"
proof (cases secs n rule: first_section_cases)
  case absent
  have "put_entry (secs @ [\<lparr>sname = n, entries = [e]\<rparr>]) n e = secs @ [\<lparr>sname = n, entries = [e]\<rparr>]"
    using put_entry_first [of secs n "\<lparr>sname = n, entries = [e]\<rparr>" "[]" e] absent by simp
  then show ?thesis using absent by (simp add: put_entry_absent)
next
  case (first pre b post)
  obtain es1 found where r: "set_value (entries b) e = (es1, found)"
    by (cases "set_value (entries b) e")
  let ?es = "if \<not> found then es1 @ [e] else es1"
  have 1: "put_entry secs n e = pre @ b\<lparr>entries := ?es\<rparr> # post"
    using first r by (simp add: put_entry_first)
  have "put_entry (pre @ b\<lparr>entries := ?es\<rparr> # post) n e = pre @ b\<lparr>entries := ?es\<rparr> # post"
    using put_entry_first [of pre n "b\<lparr>entries := ?es\<rparr>" post e] first set_value_again [OF r]
    by simp
  then show ?thesis using 1 by simp
qed

subsection \<open>The struct-based updates keep sections well-formed\<close>

lemma set_value_wf:
  "set_value es e = (es1, found) \<Longrightarrow> wf_entry e \<Longrightarrow> list_all wf_entry es \<Longrightarrow> list_all wf_entry es1"
proof (induction es arbitrary: es1 found)
  case Nil
  then show ?case by auto
next
  case (Cons x es)
  show ?case
  proof (cases "ename x = ename e")
    case True
    then show ?thesis using Cons.prems by (auto simp: wf_entry_def)
  next
    case False
    obtain es2 f2 where r: "set_value es e = (es2, f2)" by (cases "set_value es e")
    then show ?thesis using Cons.IH [OF r] Cons.prems False by auto
  qed
qed

lemma put_entry_wf:
  assumes "list_all wf_section secs" "nl \<notin> set n" "wf_entry e"
  shows "list_all wf_section (put_entry secs n e)"
proof (cases secs n rule: first_section_cases)
  case absent
  then show ?thesis using assms by (simp add: put_entry_absent wf_section_def)
next
  case (first pre b post)
  obtain es1 found where r: "set_value (entries b) e = (es1, found)"
    by (cases "set_value (entries b) e")
  have "list_all wf_entry (entries b)" "nl \<notin> set (sname b)"
    using assms(1) first(1) by (simp_all add: wf_section_def)
  then have "wf_section (b\<lparr>entries := (if \<not> found then es1 @ [e] else es1)\<rparr>)"
    using set_value_wf [OF r assms(3)] assms(3) by (simp add: wf_section_def)
  then show ?thesis using assms(1) first r by (simp add: put_entry_first)
qed

lemma put_section_wf:
  assumes "list_all wf_section secs" "wf_section sec"
  shows "list_all wf_section (put_section secs sec)"
proof (cases secs "sname sec" rule: first_section_cases)
  case absent
  then show ?thesis using assms by (simp add: put_section_absent)
next
  case (first pre b post)
  then show ?thesis using assms by (simp add: put_section_first wf_section_def)
qed

subsection \<open>The container operations\<close>

lemma um_emplace_back_new:
  "n \<notin> fst ` set acc \<Longrightarrow> um_emplace_back acc n e = acc @ [(n, [e])]"
  by (induction acc) auto

lemma um_emplace_back_last:
  "n \<notin> fst ` set acc \<Longrightarrow> um_emplace_back (acc @ [(n, es)]) n e = acc @ [(n, es @ [e])]"
  by (induction acc) auto

lemma um_emplace_back_keys:
  "map fst (um_emplace_back m n e) = (if n \<in> fst ` set m then map fst m else map fst m @ [n])"
  by (induction m) (force split: if_splits)+

lemma um_emplace_back_wf:
  "list_all wf_map_section m \<Longrightarrow> nl \<notin> set n \<Longrightarrow> wf_kv (fst e) (snd e) \<Longrightarrow>
   list_all wf_map_section (um_emplace_back m n e)"
  by (induction m) (auto simp: wf_map_section_def)

lemma map_of_um_emplace_back:
  "map_of (um_emplace_back m n e) = (map_of m)(n \<mapsto> um_at m n @ [e])"
  by (induction m) (auto simp: um_at_def fun_eq_iff)

lemma map_of_um_assign: "map_of (um_assign m k es) = (map_of m)(k \<mapsto> es)"
  by (induction m) (auto simp: fun_eq_iff)

lemma um_assign_keys:
  "map fst (um_assign m k es) = (if k \<in> fst ` set m then map fst m else map fst m @ [k])"
  by (induction m) (force split: if_splits)+

lemma um_assign_wf_sections:
  "list_all wf_map_section m \<Longrightarrow> wf_map_section (k, es) \<Longrightarrow>
   list_all wf_map_section (um_assign m k es)"
  by (induction m) (auto simp: wf_map_section_def)

lemma um_assign_wf: "wf_map m \<Longrightarrow> wf_map_section (k, es) \<Longrightarrow> wf_map (um_assign m k es)"
  by (simp add: wf_map_def um_assign_keys um_assign_wf_sections)

lemma um_assign_same: "map_of m k = Some es \<Longrightarrow> um_assign m k es = m"
  by (induction m) (auto split: if_splits)

subsection \<open>Visiting the container in another order\<close>

lemma wf_map_mset: "mset m' = mset m \<Longrightarrow> wf_map m \<Longrightarrow> wf_map m'"
proof -
  assume eq: "mset m' = mset m" and wf: "wf_map m"
  have "mset (map fst m') = mset (map fst m)" using eq by (metis mset_map)
  then have "distinct (map fst m')" using wf by (metis wf_map_def mset_eq_imp_distinct_iff)
  moreover have "set m' = set m" using eq by (rule mset_eq_setD)
  ultimately show "wf_map m'" using wf by (simp add: wf_map_def list_all_iff)
qed

lemma map_of_mset: "mset m' = mset m \<Longrightarrow> distinct (map fst m) \<Longrightarrow> map_of m' = map_of m"
proof -
  assume eq: "mset m' = mset m" and d: "distinct (map fst m)"
  have "mset (map fst m') = mset (map fst m)" using eq by (metis mset_map)
  then have d': "distinct (map fst m')" using d by (metis mset_eq_imp_distinct_iff)
  have "set m' = set m" using eq by (rule mset_eq_setD)
  then show "map_of m' = map_of m" using d d' by (simp add: map_of_inject_set)
qed

subsection \<open>The map-based parser on the output of the map-based writer\<close>

lemma parse_line_map_empty: "parse_line_map st [] = st"
  by (simp add: parse_line_map_def split: prod.splits)

lemma parse_line_map_header: "parse_line_map (m, c) (header_line n) = (m, n)"
  using header_line_parse [of n] by (simp add: parse_line_map_def)

lemma parse_line_map_kv:
  assumes "wf_kv k v"
  shows "parse_line_map (m, c) (kv_line k v) = (um_emplace_back m c (k, v), c)"
  using kv_line_parse [OF assms] by (simp add: parse_line_map_def)

lemma parse_map_entry_lines:
  "n \<notin> fst ` set acc \<Longrightarrow> list_all (\<lambda>e. wf_kv (fst e) (snd e)) es \<Longrightarrow>
   foldl parse_line_map (acc @ [(n, es0)], n) (map (\<lambda>e. kv_line (fst e) (snd e)) es)
     = (acc @ [(n, es0 @ es)], n)"
proof (induction es arbitrary: es0)
  case Nil
  then show ?case by simp
next
  case (Cons e es)
  then show ?case
    using Cons.IH [of "es0 @ [e]"] by (simp add: parse_line_map_kv um_emplace_back_last)
qed

lemma parse_map_section_lines:
  assumes "fst s \<notin> fst ` set acc" "wf_map_section s"
  shows "foldl parse_line_map (acc, c) (map_section_lines s) = (acc @ [s], fst s)"
proof -
  obtain n e es where s: "s = (n, e # es)"
    using assms(2) by (cases s; cases "snd s") (auto simp: wf_map_section_def)
  have wf: "wf_kv (fst e) (snd e)" "list_all (\<lambda>e. wf_kv (fst e) (snd e)) es"
    using assms(2) s by (simp_all add: wf_map_section_def)
  have n: "n \<notin> fst ` set acc" using assms(1) s by simp
  have "parse_line_map (acc, n) (kv_line (fst e) (snd e)) = (acc @ [(n, [e])], n)"
    using wf(1) n by (simp add: parse_line_map_kv um_emplace_back_new)
  then show ?thesis
    using parse_map_entry_lines [OF n wf(2), of "[e]"] s
    by (simp add: map_section_lines_def parse_line_map_header parse_line_map_empty)
qed

lemma parse_map_sections_lines:
  "distinct (map fst (acc @ m)) \<Longrightarrow> list_all wf_map_section m \<Longrightarrow>
   fst (foldl parse_line_map (acc, c) (concat (map map_section_lines m))) = acc @ m"
proof (induction m arbitrary: acc c)
  case Nil
  then show ?case by simp
next
  case (Cons s m)
  have "fst s \<notin> fst ` set acc" using Cons.prems(1) by auto
  then have "foldl parse_line_map (acc, c) (map_section_lines s) = (acc @ [s], fst s)"
    using Cons.prems(2) by (simp add: parse_map_section_lines)
  then show ?case using Cons.IH [of "acc @ [s]" "fst s"] Cons.prems by simp
qed

lemma write_kvs_lines:
  "concat (map write_kv es) = lines_bytes (map (\<lambda>e. kv_line (fst e) (snd e)) es)"
  by (induction es) (simp_all add: write_kv_def lines_bytes_def kv_line_def)

lemma write_map_section_lines: "write_map_section s = lines_bytes (map_section_lines s)"
  by (simp add: write_map_section_def map_section_lines_def write_kvs_lines lines_bytes_append)
     (simp add: lines_bytes_def header_line_def)

lemma write_map_lines: "write_map m = lines_bytes (concat (map map_section_lines m))"
  by (induction m) (simp_all add: write_map_def write_map_section_lines lines_bytes_append, simp add: lines_bytes_def)

lemma map_section_lines_no_nl:
  "wf_map_section s \<Longrightarrow> l \<in> set (map_section_lines s) \<Longrightarrow> nl \<notin> set l"
  by (auto simp: map_section_lines_def wf_map_section_def header_line_def list_all_iff
      dest: wf_kv_no_nl)

lemma parse_write_map:
  assumes "wf_map m"
  shows "parse_lines_map (getlines (write_map m)) = m"
proof -
  have wf: "distinct (map fst m)" "list_all wf_map_section m"
    using assms by (simp_all add: wf_map_def)
  have "\<forall>l\<in>set (concat (map map_section_lines m)). nl \<notin> set l"
    using wf(2) by (auto simp: list_all_iff dest: map_section_lines_no_nl)
  then have "getlines (write_map m) = concat (map map_section_lines m)"
    by (simp add: write_map_lines getlines_lines_bytes)
  then show ?thesis
    using parse_map_sections_lines [of "[]" m "[]"] wf by (simp add: parse_lines_map_def)
qed

lemma readAll_map_write_out:
  "wf_map m \<Longrightarrow> readable fs \<Longrightarrow> readAll_map (write_out fs (write_map m)) = Some m"
  by (simp add: readAll_map_def open_in_def write_out_def parse_write_map)

subsection \<open>What the map-based parser delivers\<close>

lemma parse_line_map_wf:
  assumes "nl \<notin> set line" "wf_map m" "nl \<notin> set c" "parse_line_map (m, c) line = (m', c')"
  shows "wf_map m' \<and> nl \<notin> set c'"
proof (cases "line = [] \<or> is_header line \<or> find_char CHR ''='' line = None")
  case True
  then show ?thesis
    using assms by (auto simp: parse_line_map_def parsed_name_no_nl split: if_splits)
next
  case False
  then obtain pos where p: "find_char CHR ''='' line = Some pos"
    and nh: "\<not> is_header line" and ne: "line \<noteq> []"
    by auto
  have wf: "wf_kv (substr line 0 pos) (substr_from line (pos + 1))"
    using parsed_kv_wf [OF assms(1) nh p] .
  have "m' = um_emplace_back m c (substr line 0 pos, substr_from line (pos + 1))" "c' = c"
    using assms(4) p nh ne by (auto simp: parse_line_map_def)
  then show ?thesis
    using assms(2,3) wf by (simp add: wf_map_def um_emplace_back_keys um_emplace_back_wf)
qed

lemma foldl_parse_line_map_wf:
  "\<forall>l\<in>set ls. nl \<notin> set l \<Longrightarrow> wf_map m \<Longrightarrow> nl \<notin> set c \<Longrightarrow>
   wf_map (fst (foldl parse_line_map (m, c) ls))"
proof (induction ls arbitrary: m c)
  case Nil
  then show ?case by simp
next
  case (Cons l ls)
  obtain m' c' where st: "parse_line_map (m, c) l = (m', c')"
    by (cases "parse_line_map (m, c) l")
  have "wf_map m' \<and> nl \<notin> set c'"
    using parse_line_map_wf [OF _ Cons.prems(2,3) st] Cons.prems(1) by simp
  then show ?case using Cons.IH [of m' c'] Cons.prems(1) st by simp
qed

lemma parse_lines_map_wf: "\<forall>l\<in>set ls. nl \<notin> set l \<Longrightarrow> wf_map (parse_lines_map ls)"
  using foldl_parse_line_map_wf [of ls "[]" "[]"] by (simp add: parse_lines_map_def wf_map_def)

lemma readAll_map_wf: "readAll_map fs = Some m \<Longrightarrow> wf_map m"
  by (auto simp: readAll_map_def parse_lines_map_wf getlines_no_nl split: option.splits)

lemma readAll_map_readable: "readAll_map fs = Some m \<Longrightarrow> readable fs"
  by (auto simp: readAll_map_def open_in_def split: option.splits if_splits)

subsection \<open>Setting a value in a vector of pairs\<close>

lemma set_kv_again:
  "set_kv es k v = (es1, found) \<Longrightarrow>
   set_kv (if \<not> found then es1 @ [(k, v)] else es1) k v
     = (if \<not> found then es1 @ [(k, v)] else es1, True)"
proof (induction es arbitrary: es1 found)
  case Nil
  then show ?case by auto
next
  case (Cons x es)
  show ?case
  proof (cases "fst x = k")
    case True
    then show ?thesis using Cons.prems by auto
  next
    case False
    obtain es2 f2 where r: "set_kv es k v = (es2, f2)" by (cases "set_kv es k v")
    then have "es1 = x # es2" "found = f2" using Cons.prems False by auto
    then show ?thesis using Cons.IH [OF r] False by (auto split: if_splits)
  qed
qed

lemma set_kv_wf:
  "set_kv es k v = (es1, found) \<Longrightarrow> wf_kv k v \<Longrightarrow>
   list_all (\<lambda>e. wf_kv (fst e) (snd e)) es \<Longrightarrow> list_all (\<lambda>e. wf_kv (fst e) (snd e)) es1"
proof (induction es arbitrary: es1 found)
  case Nil
  then show ?case by auto
next
  case (Cons x es)
  show ?case
  proof (cases "fst x = k")
    case True
    then show ?thesis using Cons.prems by auto
  next
    case False
    obtain es2 f2 where r: "set_kv es k v = (es2, f2)" by (cases "set_kv es k v")
    then show ?thesis using Cons.IH [OF r] Cons.prems False by auto
  qed
qed

subsection \<open>Writing a section with the map-based implementation\<close>

lemma load_map_wf: "wf_map (load_map fs)"
proof (cases "readAll_map fs")
  case None
  then show ?thesis by (simp add: load_map_def wf_map_def)
next
  case (Some m)
  then show ?thesis using readAll_map_wf [OF Some] by (simp add: load_map_def)
qed

lemma written_map_wf:
  assumes "iteration_order ord" "wf_map_section (n, es)"
  shows "wf_map (ord (um_assign (load_map fs) n es))"
proof -
  have "wf_map (um_assign (load_map fs) n es)"
    using load_map_wf assms(2) by (rule um_assign_wf)
  moreover have "mset (ord (um_assign (load_map fs) n es)) = mset (um_assign (load_map fs) n es)"
    using assms(1) by (simp add: iteration_order_def)
  ultimately show ?thesis using wf_map_mset by blast
qed

lemma writeSection_map_True:
  "writeSection_map ord fs n es = (True, fs') \<Longrightarrow>
   fs' = write_out fs (write_map (ord (um_assign (load_map fs) n es)))"
  by (auto simp: writeSection_map_def Let_def split: if_splits)

lemma readAll_map_written:
  assumes "iteration_order ord" "wf_map_section (n, es)" "readable fs"
    "writeSection_map ord fs n es = (True, fs')"
  shows "readAll_map fs' = Some (ord (um_assign (load_map fs) n es))"
  using writeSection_map_True [OF assms(4)] written_map_wf [OF assms(1,2)] assms(3)
  by (simp add: readAll_map_write_out)

lemma map_of_written:
  assumes "iteration_order ord"
  shows "map_of (ord (um_assign (load_map fs) n es)) = (map_of (load_map fs))(n \<mapsto> es)"
proof -
  have "distinct (map fst (um_assign (load_map fs) n es))"
    using load_map_wf [of fs] by (simp add: um_assign_keys wf_map_def)
  moreover have "mset (ord (um_assign (load_map fs) n es)) = mset (um_assign (load_map fs) n es)"
    using assms by (simp add: iteration_order_def)
  ultimately show ?thesis by (simp add: map_of_mset map_of_um_assign)
qed

lemma writeSection_map_readSection_map:
  assumes "iteration_order ord" "wf_map_section (n, es)" "readable fs"
    "writeSection_map ord fs n es = (True, fs')"
  shows "readSection_map fs' n out = (True, es)"
  using readAll_map_written [OF assms] map_of_written [OF assms(1), of fs n es]
  by (simp add: readSection_map_def um_count_def um_at_def)

lemma iteration_order_id: "iteration_order (\<lambda>m. m)"
  by (simp add: iteration_order_def)

lemma iteration_order_rev: "iteration_order rev"
  by (simp add: iteration_order_def)

section \<open>The claims\<close>

text \<open>
  Claim C1, for the map-based implementation, as far as it holds: let the file be one that
  can be opened for reading. After a successful \<open>writeSection\<close> with the name \<open>"S"\<close> and
  the entries \<open>[("A","1"),("B","2")]\<close>, a \<open>readSection("S")\<close> on the file written succeeds
  and delivers exactly that list, in that order, whatever the vector held before and in
  whatever order the container is visited.
\<close>

theorem writeSection_readSection_roundtrip:
  assumes "iteration_order ord" and "readable fs"
    and "writeSection_map ord fs ''S'' [(''A'', ''1''), (''B'', ''2'')] = (True, fs')"
  shows "readSection_map fs' ''S'' out = (True, [(''A'', ''1''), (''B'', ''2'')])"
proof -
  have "wf_map_section (''S'', [(''A'', ''1''), (''B'', ''2'')])"
    by (simp add: wf_map_section_def wf_kv_def is_header_def kv_line_def)
  from writeSection_map_readSection_map [OF assms(1) this assms(2,3)] show ?thesis .
qed

theorem writeSection_readSection_roundtrip_witness:
  "iteration_order rev
   \<and> readable \<lparr>content = Some ''[T]\<newline>x=y\<newline>'', readable = True, writable = True\<rparr>
   \<and> writeSection_map rev \<lparr>content = Some ''[T]\<newline>x=y\<newline>'', readable = True, writable = True\<rparr>
        ''S'' [(''A'', ''1''), (''B'', ''2'')]
      = (True, \<lparr>content = Some ''[S]\<newline>A=1\<newline>B=2\<newline>\<newline>[T]\<newline>x=y\<newline>\<newline>'',
                readable = True, writable = True\<rparr>)
   \<and> readSection_map \<lparr>content = Some ''[S]\<newline>A=1\<newline>B=2\<newline>\<newline>[T]\<newline>x=y\<newline>\<newline>'',
                readable = True, writable = True\<rparr> ''S'' [(''old'', ''entry'')]
      = (True, [(''A'', ''1''), (''B'', ''2'')])"
proof -
  let ?fs = "\<lparr>content = Some ''[T]\<newline>x=y\<newline>'', readable = True, writable = True\<rparr>"
  let ?fs' = "\<lparr>content = Some ''[S]\<newline>A=1\<newline>B=2\<newline>\<newline>[T]\<newline>x=y\<newline>\<newline>'',
                readable = True, writable = True\<rparr>"
  have w: "writeSection_map rev ?fs ''S'' [(''A'', ''1''), (''B'', ''2'')] = (True, ?fs')"
    by code_simp
  have r: "readable ?fs" by simp
  show ?thesis
    using writeSection_readSection_roundtrip [OF iteration_order_rev r w, of "[(''old'', ''entry'')]"]
      iteration_order_rev w by simp
qed

text \<open>
  Without that condition the claim fails: \<open>writeSection\<close> does not test the result of
  \<open>readAll\<close> and succeeds on a file that can only be written, and \<open>readSection\<close> on that
  file returns false.
\<close>

theorem roundtrip_unreadable_counterexample:
  "writeSection_map (\<lambda>m. m) \<lparr>content = Some [], readable = False, writable = True\<rparr>
        ''S'' [(''A'', ''1''), (''B'', ''2'')]
      = (True, \<lparr>content = Some ''[S]\<newline>A=1\<newline>B=2\<newline>\<newline>'', readable = False, writable = True\<rparr>)
   \<and> readSection_map \<lparr>content = Some ''[S]\<newline>A=1\<newline>B=2\<newline>\<newline>'', readable = False, writable = True\<rparr>
        ''S'' [] = (False, [])"
  by code_simp

subsection \<open>The map-based parser and the lines of the file\<close>

lemma um_at_um_emplace_back:
  "um_at (um_emplace_back m c e) n = (if n = c then um_at m c @ [e] else um_at m n)"
  by (simp add: um_at_def map_of_um_emplace_back)

lemma parse_line_map_cases:
  "parse_line_map (m, c) l =
     (if l = [] then (m, c)
      else if is_header l then (m, header_name l)
      else (case find_char CHR ''='' l of
              None \<Rightarrow> (m, c)
            | Some pos \<Rightarrow> (um_emplace_back m c (substr l 0 pos, substr_from l (pos + 1)), c)))"
  by (simp add: parse_line_map_def)

lemma foldl_parse_line_map_lookup:
  "map_of (fst (foldl parse_line_map (m, c) ls)) n =
     (if lines_under n c ls = [] then map_of m n else Some (um_at m n @ lines_under n c ls))"
proof (induction ls arbitrary: m c)
  case Nil
  then show ?case by simp
next
  case (Cons l ls)
  show ?case
  proof (cases "l = [] \<or> is_header l \<or> find_char CHR ''='' l = None")
    case True
    then show ?thesis
      using Cons.IH [of m c] Cons.IH [of m "header_name l"]
      by (auto simp: parse_line_map_cases)
  next
    case False
    then obtain pos where p: "find_char CHR ''='' l = Some pos" "l \<noteq> []" "\<not> is_header l"
      by auto
    let ?e = "(substr l 0 pos, substr_from l (pos + 1))"
    have st: "parse_line_map (m, c) l = (um_emplace_back m c ?e, c)"
      using p by (simp add: parse_line_map_cases)
    have lu: "lines_under n c (l # ls) = (if c = n then [?e] else []) @ lines_under n c ls"
      using p by simp
    show ?thesis
    proof (cases "c = n")
      case True
      then show ?thesis
        using Cons.IH [of "um_emplace_back m c ?e" c] st lu
        by (simp add: um_at_um_emplace_back map_of_um_emplace_back)
    next
      case False
      then show ?thesis
        using Cons.IH [of "um_emplace_back m c ?e" c] st lu
        by (simp add: um_at_um_emplace_back map_of_um_emplace_back)
    qed
  qed
qed

lemma parse_lines_map_lookup:
  "map_of (parse_lines_map ls) n
     = (if lines_under n [] ls = [] then None else Some (lines_under n [] ls))"
  using foldl_parse_line_map_lookup [of "[]" "[]" ls n]
  by (simp add: parse_lines_map_def um_at_def)

lemma readAll_map_lookup:
  assumes "open_in fm = Some bytes"
  shows "\<exists>m. readAll_map fm = Some m
    \<and> (\<forall>n. map_of m n = (if file_entries n bytes = [] then None else Some (file_entries n bytes)))"
  using assms by (simp add: readAll_map_def parse_lines_map_lookup file_entries_def)



lemma ord_single: "iteration_order ord \<Longrightarrow> ord [x] = [x]"
proof -
  assume "iteration_order ord"
  then have "mset (ord [x]) = {#x#}" by (simp add: iteration_order_def)
  then show ?thesis by simp
qed

lemma open_in_readable: "open_in fs = Some bytes \<Longrightarrow> readable fs"
  by (auto simp: open_in_def split: option.splits if_splits)

subsection \<open>What a successful write leaves in the file\<close>

lemma writeSection_True:
  "writeSection fs sec = (True, fs') \<Longrightarrow>
   \<exists>secs. readAll fs = Some secs \<and> fs' = write_out fs (write_sections (put_section secs sec))"
  by (auto simp: writeSection_def Let_def split: option.splits if_splits)

lemma writeEntry_True:
  "writeEntry fs n e = (True, fs') \<Longrightarrow>
   \<exists>secs. readAll fs = Some secs \<and> fs' = write_out fs (write_sections (put_entry secs n e))"
  by (auto simp: writeEntry_def Let_def split: option.splits if_splits)

lemma write_sections_Cons: "write_sections (s # ss) = write_section s @ write_sections ss"
  by (simp add: write_sections_def)

lemma put_section_tail:
  "sname a \<noteq> sname sec \<Longrightarrow> put_section (a # rest) sec = a # put_section rest sec"
  by (simp add: put_section_def split: prod.splits)

lemma put_entry_tail:
  assumes "sname a \<noteq> n"
  shows "put_entry (a # rest) n e = a # put_entry rest n e"
proof (cases rest n rule: first_section_cases)
  case absent
  then have "\<forall>s\<in>set (a # rest). sname s \<noteq> n" using assms by simp
  then show ?thesis using absent by (simp only: put_entry_absent) simp
next
  case (first pre b post)
  then have "\<forall>s\<in>set (a # pre). sname s \<noteq> n" using assms by simp
  from put_entry_first [OF this first(3), of post e] put_entry_first [OF first(2,3), of post e]
  show ?thesis using first(1) by simp
qed

lemma set_kv_found: "set_kv es k v = (es1, True) \<Longrightarrow> es1 \<noteq> []"
  by (cases es) (auto split: if_splits prod.splits)

lemma writeValue_map_writeSection_map:
  "\<exists>es. es \<noteq> [] \<and> writeValue_map ord fs n k v = writeSection_map ord fs n es"
proof -
  obtain es1 found where r: "set_kv (snd (readSection_map fs n [])) k v = (es1, found)"
    by (cases "set_kv (snd (readSection_map fs n [])) k v")
  let ?es = "if \<not> found then es1 @ [(k, v)] else es1"
  have "?es \<noteq> []" using set_kv_found [of _ k v es1] r by (cases found) auto
  moreover have "writeValue_map ord fs n k v = writeSection_map ord fs n ?es"
    using r by (simp add: writeValue_map_def)
  ultimately show ?thesis by blast
qed

lemma content_written_map:
  assumes "iteration_order ord" "readAll_map fs = Some m"
    "writeSection_map ord fs n es = (True, fs')"
  shows "\<exists>m'. content fs' = Some (write_map m') \<and> distinct (map fst m')
           \<and> map_of m' = (map_of m)(n \<mapsto> es)"
proof -
  let ?m' = "ord (um_assign (load_map fs) n es)"
  have l: "load_map fs = m" using assms(2) by (simp add: load_map_def)
  have "distinct (map fst (um_assign (load_map fs) n es))"
    using load_map_wf [of fs] by (simp add: um_assign_keys wf_map_def)
  moreover have "mset (map fst ?m') = mset (map fst (um_assign (load_map fs) n es))"
    using assms(1) by (metis iteration_order_def mset_map)
  ultimately have "distinct (map fst ?m')" by (metis mset_eq_imp_distinct_iff)
  moreover have "content fs' = Some (write_map ?m')"
    using writeSection_map_True [OF assms(3)] by (simp add: write_out_def)
  moreover have "map_of ?m' = (map_of m)(n \<mapsto> es)"
    using map_of_written [OF assms(1), of fs n es] l by simp
  ultimately show ?thesis by blast
qed

lemma content_written_file:
  assumes "iteration_order ord" "open_in fm = Some bytes"
    "writeSection_map ord fm n es = (True, fm1)"
  shows "\<exists>m1. content fm1 = Some (write_map m1) \<and> distinct (map fst m1)
           \<and> map_of m1 n = Some es
           \<and> (\<forall>n'. n' \<noteq> n \<longrightarrow> map_of m1 n'
                 = (if file_entries n' bytes = [] then None else Some (file_entries n' bytes)))"
proof -
  obtain m where r: "readAll_map fm = Some m"
    and l: "\<forall>n'. map_of m n' = (if file_entries n' bytes = [] then None else Some (file_entries n' bytes))"
    using readAll_map_lookup [OF assms(2)] by blast
  obtain m1 where m1: "content fm1 = Some (write_map m1)" "distinct (map fst m1)"
    "map_of m1 = (map_of m)(n \<mapsto> es)"
    using content_written_map [OF assms(1) r assms(3)] by blast
  have "map_of m1 n = Some es" using m1(3) by simp
  moreover have "\<forall>n'. n' \<noteq> n \<longrightarrow> map_of m1 n'
      = (if file_entries n' bytes = [] then None else Some (file_entries n' bytes))"
    using m1(3) l by simp
  ultimately show ?thesis using m1(1,2) by blast
qed

lemma content_written_unreadable:
  assumes "iteration_order ord" "open_in fm = None" "writeSection_map ord fm n es = (True, fm1)"
  shows "content fm1 = Some (write_map [(n, es)])"
proof -
  have "load_map fm = []" using assms(2) by (simp add: load_map_def readAll_map_def)
  then show ?thesis
    using writeSection_map_True [OF assms(3)] ord_single [OF assms(1), of "(n, es)"]
    by (simp add: write_out_def)
qed

lemma writeValue_map_unreadable:
  assumes "open_in fm = None"
  shows "writeValue_map ord fm n k v = writeSection_map ord fm n [(k, v)]"
  using assms by (simp add: writeValue_map_def readSection_map_def readAll_map_def)

text \<open>
  Claim C2, as far as it holds. In the struct-based implementation, when the file read
  begins with a section \<open>"A"\<close>, a successful \<open>writeSection\<close> or \<open>writeEntry\<close> for a section
  \<open>"B"\<close> writes the block of \<open>"A"\<close>, unchanged, at the beginning of the file, followed by
  the other sections in their order: only the first section named \<open>"B"\<close> has new entries,
  or a section \<open>"B"\<close> is added at the end. In the map-based implementation a successful
  \<open>writeSection\<close> or \<open>writeValue\<close> for \<open>"B"\<close> on a file that can be opened for reading
  writes one block for \<open>"B"\<close> and one block for each other name under which the file
  read holds at least one key=value line (the lines before the first header standing
  under the empty name), with exactly those lines in the order of the file; a section
  without entries is not written again, and the blocks stand in the
  order in which the container is visited. On a file that cannot be opened for reading
  the map-based implementation writes the block of \<open>"B"\<close> alone.
\<close>

theorem write_other_section_keeps_order:
  "(readAll fs = Some (a # rest) \<and> sname a = ''A'' \<and> sname sec = ''B''
      \<and> writeSection fs sec = (True, fs1) \<longrightarrow>
      (\<exists>rest1. content fs1 = Some (write_section a @ write_sections rest1)
         \<and> ((\<forall>s\<in>set rest. sname s \<noteq> ''B'') \<longrightarrow> rest1 = rest @ [sec])
         \<and> (\<forall>pre b post. rest = pre @ b # post \<and> (\<forall>s\<in>set pre. sname s \<noteq> ''B'') \<and> sname b = ''B''
               \<longrightarrow> rest1 = pre @ b\<lparr>entries := entries sec\<rparr> # post)))
   \<and> (readAll fs = Some (a # rest) \<and> sname a = ''A''
      \<and> writeEntry fs ''B'' e = (True, fs2) \<longrightarrow>
      (\<exists>rest2. content fs2 = Some (write_section a @ write_sections rest2)
         \<and> ((\<forall>s\<in>set rest. sname s \<noteq> ''B'') \<longrightarrow> rest2 = rest @ [\<lparr>sname = ''B'', entries = [e]\<rparr>])
         \<and> (\<forall>pre b post. rest = pre @ b # post \<and> (\<forall>s\<in>set pre. sname s \<noteq> ''B'') \<and> sname b = ''B''
               \<longrightarrow> (\<exists>es. rest2 = pre @ b\<lparr>entries := es\<rparr> # post))))
   \<and> (iteration_order ord \<and> open_in fm = Some bytes
      \<and> writeSection_map ord fm ''B'' ents = (True, fm1) \<longrightarrow>
      (\<exists>m1. content fm1 = Some (write_map m1) \<and> distinct (map fst m1)
         \<and> map_of m1 ''B'' = Some ents
         \<and> (\<forall>n. n \<noteq> ''B'' \<longrightarrow> map_of m1 n
               = (if file_entries n bytes = [] then None else Some (file_entries n bytes)))))
   \<and> (iteration_order ord \<and> open_in fm = Some bytes
      \<and> writeValue_map ord fm ''B'' k v = (True, fm2) \<longrightarrow>
      (\<exists>m2 es. content fm2 = Some (write_map m2) \<and> distinct (map fst m2)
         \<and> map_of m2 ''B'' = Some es
         \<and> (\<forall>n. n \<noteq> ''B'' \<longrightarrow> map_of m2 n
               = (if file_entries n bytes = [] then None else Some (file_entries n bytes)))))
   \<and> (iteration_order ord \<and> open_in fu = None
      \<and> writeSection_map ord fu ''B'' ents = (True, fu1) \<longrightarrow>
      content fu1 = Some (write_map [(''B'', ents)]))
   \<and> (iteration_order ord \<and> open_in fu = None
      \<and> writeValue_map ord fu ''B'' k v = (True, fu2) \<longrightarrow>
      content fu2 = Some (write_map [(''B'', [(k, v)])]))"
proof (intro conjI impI)
  assume h: "readAll fs = Some (a # rest) \<and> sname a = ''A'' \<and> sname sec = ''B''
      \<and> writeSection fs sec = (True, fs1)"
  then have ne: "sname a \<noteq> sname sec" by simp
  have "fs1 = write_out fs (write_sections (put_section (a # rest) sec))"
    using writeSection_True [of fs sec fs1] h by auto
  then have c: "content fs1 = Some (write_section a @ write_sections (put_section rest sec))"
    using ne by (simp add: put_section_tail write_sections_Cons write_out_def)
  have "(\<forall>s\<in>set rest. sname s \<noteq> ''B'') \<longrightarrow> put_section rest sec = rest @ [sec]"
    using h by (simp add: put_section_absent)
  moreover have "\<forall>pre b post. rest = pre @ b # post \<and> (\<forall>s\<in>set pre. sname s \<noteq> ''B'') \<and> sname b = ''B''
               \<longrightarrow> put_section rest sec = pre @ b\<lparr>entries := entries sec\<rparr> # post"
    using h by (auto simp: put_section_first)
  ultimately show "\<exists>rest1. content fs1 = Some (write_section a @ write_sections rest1)
         \<and> ((\<forall>s\<in>set rest. sname s \<noteq> ''B'') \<longrightarrow> rest1 = rest @ [sec])
         \<and> (\<forall>pre b post. rest = pre @ b # post \<and> (\<forall>s\<in>set pre. sname s \<noteq> ''B'') \<and> sname b = ''B''
               \<longrightarrow> rest1 = pre @ b\<lparr>entries := entries sec\<rparr> # post)"
    using c by blast
next
  assume h: "readAll fs = Some (a # rest) \<and> sname a = ''A'' \<and> writeEntry fs ''B'' e = (True, fs2)"
  then have ne: "sname a \<noteq> ''B''" by simp
  have "fs2 = write_out fs (write_sections (put_entry (a # rest) ''B'' e))"
    using writeEntry_True [of fs "''B''" e fs2] h by auto
  then have c: "content fs2 = Some (write_section a @ write_sections (put_entry rest ''B'' e))"
    using ne by (simp add: put_entry_tail write_sections_Cons write_out_def)
  have "(\<forall>s\<in>set rest. sname s \<noteq> ''B'') \<longrightarrow>
      put_entry rest ''B'' e = rest @ [\<lparr>sname = ''B'', entries = [e]\<rparr>]"
    by (simp add: put_entry_absent)
  moreover have "\<forall>pre b post. rest = pre @ b # post \<and> (\<forall>s\<in>set pre. sname s \<noteq> ''B'') \<and> sname b = ''B''
               \<longrightarrow> (\<exists>es. put_entry rest ''B'' e = pre @ b\<lparr>entries := es\<rparr> # post)"
    by (auto simp: put_entry_first)
  ultimately show "\<exists>rest2. content fs2 = Some (write_section a @ write_sections rest2)
         \<and> ((\<forall>s\<in>set rest. sname s \<noteq> ''B'') \<longrightarrow> rest2 = rest @ [\<lparr>sname = ''B'', entries = [e]\<rparr>])
         \<and> (\<forall>pre b post. rest = pre @ b # post \<and> (\<forall>s\<in>set pre. sname s \<noteq> ''B'') \<and> sname b = ''B''
               \<longrightarrow> (\<exists>es. rest2 = pre @ b\<lparr>entries := es\<rparr> # post))"
    using c by blast
next
  assume h: "iteration_order ord \<and> open_in fm = Some bytes
      \<and> writeSection_map ord fm ''B'' ents = (True, fm1)"
  then show "\<exists>m1. content fm1 = Some (write_map m1) \<and> distinct (map fst m1)
         \<and> map_of m1 ''B'' = Some ents
         \<and> (\<forall>n. n \<noteq> ''B'' \<longrightarrow> map_of m1 n
               = (if file_entries n bytes = [] then None else Some (file_entries n bytes)))"
    using content_written_file [of ord fm bytes "''B''" ents fm1] by simp
next
  assume h: "iteration_order ord \<and> open_in fm = Some bytes
      \<and> writeValue_map ord fm ''B'' k v = (True, fm2)"
  obtain es where "writeValue_map ord fm ''B'' k v = writeSection_map ord fm ''B'' es"
    using writeValue_map_writeSection_map by blast
  then have "\<exists>m2. content fm2 = Some (write_map m2) \<and> distinct (map fst m2)
         \<and> map_of m2 ''B'' = Some es
         \<and> (\<forall>n. n \<noteq> ''B'' \<longrightarrow> map_of m2 n
               = (if file_entries n bytes = [] then None else Some (file_entries n bytes)))"
    using content_written_file [of ord fm bytes "''B''" es fm2] h by simp
  then show "\<exists>m2 es. content fm2 = Some (write_map m2) \<and> distinct (map fst m2)
         \<and> map_of m2 ''B'' = Some es
         \<and> (\<forall>n. n \<noteq> ''B'' \<longrightarrow> map_of m2 n
               = (if file_entries n bytes = [] then None else Some (file_entries n bytes)))"
    by blast
next
  assume "iteration_order ord \<and> open_in fu = None
      \<and> writeSection_map ord fu ''B'' ents = (True, fu1)"
  then show "content fu1 = Some (write_map [(''B'', ents)])"
    using content_written_unreadable [of ord fu "''B''" ents fu1] by simp
next
  assume h: "iteration_order ord \<and> open_in fu = None
      \<and> writeValue_map ord fu ''B'' k v = (True, fu2)"
  then have "writeSection_map ord fu ''B'' [(k, v)] = (True, fu2)"
    using writeValue_map_unreadable [of fu ord "''B''" k v] by simp
  then show "content fu2 = Some (write_map [(''B'', [(k, v)])])"
    using content_written_unreadable [of ord fu "''B''" "[(k, v)]" fu2] h by simp
qed

theorem write_other_section_keeps_order_witness:
  "readAll \<lparr>content = Some ''[A]\<newline>x=1\<newline>\<newline>[C]\<newline>z=3\<newline>\<newline>'', readable = True, writable = True\<rparr> = Some (\<lparr>sname = ''A'', entries = [\<lparr>ename = ''x'', evalue = ''1''\<rparr>]\<rparr> # [\<lparr>sname = ''C'', entries = [\<lparr>ename = ''z'', evalue = ''3''\<rparr>]\<rparr>])
   \<and> writeSection \<lparr>content = Some ''[A]\<newline>x=1\<newline>\<newline>[C]\<newline>z=3\<newline>\<newline>'', readable = True, writable = True\<rparr> \<lparr>sname = ''B'', entries = [\<lparr>ename = ''y'', evalue = ''2''\<rparr>]\<rparr> = (True, \<lparr>content = Some ''[A]\<newline>x=1\<newline>\<newline>[C]\<newline>z=3\<newline>\<newline>[B]\<newline>y=2\<newline>\<newline>'', readable = True, writable = True\<rparr>)
   \<and> writeEntry \<lparr>content = Some ''[A]\<newline>x=1\<newline>\<newline>[C]\<newline>z=3\<newline>\<newline>'', readable = True, writable = True\<rparr> ''B'' \<lparr>ename = ''y'', evalue = ''2''\<rparr> = (True, \<lparr>content = Some ''[A]\<newline>x=1\<newline>\<newline>[C]\<newline>z=3\<newline>\<newline>[B]\<newline>y=2\<newline>\<newline>'', readable = True, writable = True\<rparr>)
   \<and> (\<exists>rest1. content \<lparr>content = Some ''[A]\<newline>x=1\<newline>\<newline>[C]\<newline>z=3\<newline>\<newline>[B]\<newline>y=2\<newline>\<newline>'', readable = True, writable = True\<rparr> = Some (write_section \<lparr>sname = ''A'', entries = [\<lparr>ename = ''x'', evalue = ''1''\<rparr>]\<rparr> @ write_sections rest1)
       \<and> rest1 = [\<lparr>sname = ''C'', entries = [\<lparr>ename = ''z'', evalue = ''3''\<rparr>]\<rparr>, \<lparr>sname = ''B'', entries = [\<lparr>ename = ''y'', evalue = ''2''\<rparr>]\<rparr>])
   \<and> iteration_order rev
   \<and> open_in \<lparr>content = Some ''[A]\<newline>x=1\<newline>\<newline>[C]\<newline>z=3\<newline>\<newline>'', readable = True, writable = True\<rparr> = Some ''[A]\<newline>x=1\<newline>\<newline>[C]\<newline>z=3\<newline>\<newline>''
   \<and> writeSection_map rev \<lparr>content = Some ''[A]\<newline>x=1\<newline>\<newline>[C]\<newline>z=3\<newline>\<newline>'', readable = True, writable = True\<rparr> ''B'' [(''y'', ''2'')] = (True, \<lparr>content = Some ''[B]\<newline>y=2\<newline>\<newline>[C]\<newline>z=3\<newline>\<newline>[A]\<newline>x=1\<newline>\<newline>'', readable = True, writable = True\<rparr>)
   \<and> writeValue_map rev \<lparr>content = Some ''[A]\<newline>x=1\<newline>\<newline>[C]\<newline>z=3\<newline>\<newline>'', readable = True, writable = True\<rparr> ''B'' ''y'' ''2'' = (True, \<lparr>content = Some ''[B]\<newline>y=2\<newline>\<newline>[C]\<newline>z=3\<newline>\<newline>[A]\<newline>x=1\<newline>\<newline>'', readable = True, writable = True\<rparr>)
   \<and> (\<exists>m1. content \<lparr>content = Some ''[B]\<newline>y=2\<newline>\<newline>[C]\<newline>z=3\<newline>\<newline>[A]\<newline>x=1\<newline>\<newline>'', readable = True, writable = True\<rparr> = Some (write_map m1) \<and> distinct (map fst m1)
       \<and> map_of m1 ''B'' = Some [(''y'', ''2'')]
       \<and> map_of m1 ''A'' = Some [(''x'', ''1'')]
       \<and> map_of m1 ''C'' = Some [(''z'', ''3'')]
       \<and> map_of m1 ''D'' = None)
   \<and> open_in \<lparr>content = Some ''[A]\<newline>x=1\<newline>\<newline>[C]\<newline>z=3\<newline>\<newline>'', readable = False, writable = True\<rparr> = None
   \<and> writeSection_map rev \<lparr>content = Some ''[A]\<newline>x=1\<newline>\<newline>[C]\<newline>z=3\<newline>\<newline>'', readable = False, writable = True\<rparr> ''B'' [(''y'', ''2'')] = (True, \<lparr>content = Some ''[B]\<newline>y=2\<newline>\<newline>'', readable = False, writable = True\<rparr>)
   \<and> content \<lparr>content = Some ''[B]\<newline>y=2\<newline>\<newline>'', readable = False, writable = True\<rparr> = Some (write_map [(''B'', [(''y'', ''2'')])])"
proof -
  let ?F = "\<lparr>content = Some ''[A]\<newline>x=1\<newline>\<newline>[C]\<newline>z=3\<newline>\<newline>'', readable = True, writable = True\<rparr>"
  let ?F1 = "\<lparr>content = Some ''[A]\<newline>x=1\<newline>\<newline>[C]\<newline>z=3\<newline>\<newline>[B]\<newline>y=2\<newline>\<newline>'', readable = True, writable = True\<rparr>"
  let ?G1 = "\<lparr>content = Some ''[B]\<newline>y=2\<newline>\<newline>[C]\<newline>z=3\<newline>\<newline>[A]\<newline>x=1\<newline>\<newline>'', readable = True, writable = True\<rparr>"
  let ?U = "\<lparr>content = Some ''[A]\<newline>x=1\<newline>\<newline>[C]\<newline>z=3\<newline>\<newline>'', readable = False, writable = True\<rparr>"
  let ?U1 = "\<lparr>content = Some ''[B]\<newline>y=2\<newline>\<newline>'', readable = False, writable = True\<rparr>"
  let ?by = "''[A]\<newline>x=1\<newline>\<newline>[C]\<newline>z=3\<newline>\<newline>''"
  let ?a = "\<lparr>sname = ''A'', entries = [\<lparr>ename = ''x'', evalue = ''1''\<rparr>]\<rparr>"
  let ?c = "\<lparr>sname = ''C'', entries = [\<lparr>ename = ''z'', evalue = ''3''\<rparr>]\<rparr>"
  let ?sec = "\<lparr>sname = ''B'', entries = [\<lparr>ename = ''y'', evalue = ''2''\<rparr>]\<rparr>"
  let ?e = "\<lparr>ename = ''y'', evalue = ''2''\<rparr>"
  have r: "readAll ?F = Some (?a # [?c])" by code_simp
  have w: "writeSection ?F ?sec = (True, ?F1)" by code_simp
  have we: "writeEntry ?F ''B'' ?e = (True, ?F1)" by code_simp
  have oi: "open_in ?F = Some ?by" by (simp add: open_in_def)
  have ou: "open_in ?U = None" by (simp add: open_in_def)
  have wm: "writeSection_map rev ?F ''B'' [(''y'', ''2'')] = (True, ?G1)" by code_simp
  have wv: "writeValue_map rev ?F ''B'' ''y'' ''2'' = (True, ?G1)" by code_simp
  have wu: "writeSection_map rev ?U ''B'' [(''y'', ''2'')] = (True, ?U1)" by code_simp
  have fa: "file_entries ''A'' ?by = [(''x'', ''1'')]" by code_simp
  have fc: "file_entries ''C'' ?by = [(''z'', ''3'')]" by code_simp
  have fd: "file_entries ''D'' ?by = []" by code_simp
  have ab: "sname ?a = ''A''" "sname ?sec = ''B''" by simp_all
  note t = write_other_section_keeps_order [where fs = ?F and a = ?a and rest = "[?c]"
      and sec = ?sec and ?fs1.0 = ?F1 and e = ?e and ?fs2.0 = ?F1 and ord = rev and fm = ?F
      and bytes = ?by and ents = "[(''y'', ''2'')]" and ?fm1.0 = ?G1 and k = "''y''"
      and v = "''2''" and ?fm2.0 = ?G1 and fu = ?U and ?fu1.0 = ?U1 and ?fu2.0 = ?U1]
  obtain rest1 where r1: "content ?F1 = Some (write_section ?a @ write_sections rest1)"
      and r2: "(\<forall>s\<in>set [?c]. sname s \<noteq> ''B'') \<longrightarrow> rest1 = [?c] @ [?sec]"
    using t [THEN conjunct1, THEN mp, OF conjI [OF r conjI [OF ab(1) conjI [OF ab(2) w]]]]
    by (elim exE conjE)
  have "rest1 = [?c, ?sec]" using r2 by simp
  then have 1: "\<exists>rest1. content ?F1 = Some (write_section ?a @ write_sections rest1)
       \<and> rest1 = [?c, ?sec]"
    using r1 by (intro exI [of _ rest1] conjI)
  obtain m1 where m1: "content ?G1 = Some (write_map m1)" "distinct (map fst m1)"
      "map_of m1 ''B'' = Some [(''y'', ''2'')]"
      and o: "\<forall>n. n \<noteq> ''B'' \<longrightarrow> map_of m1 n
               = (if file_entries n ?by = [] then None else Some (file_entries n ?by))"
    using t [THEN conjunct2, THEN conjunct2, THEN conjunct1, THEN mp,
        OF conjI [OF iteration_order_rev conjI [OF oi wm]]]
    by (elim exE conjE)
  have ma: "map_of m1 ''A'' = Some [(''x'', ''1'')]" using o [THEN spec, of "''A''"] fa by simp
  have mc: "map_of m1 ''C'' = Some [(''z'', ''3'')]" using o [THEN spec, of "''C''"] fc by simp
  have md: "map_of m1 ''D'' = None" using o [THEN spec, of "''D''"] fd by simp
  have 2: "\<exists>m1. content ?G1 = Some (write_map m1) \<and> distinct (map fst m1)
       \<and> map_of m1 ''B'' = Some [(''y'', ''2'')]
       \<and> map_of m1 ''A'' = Some [(''x'', ''1'')]
       \<and> map_of m1 ''C'' = Some [(''z'', ''3'')]
       \<and> map_of m1 ''D'' = None"
    using m1 ma mc md by (intro exI [of _ m1] conjI)
  have 3: "content ?U1 = Some (write_map [(''B'', [(''y'', ''2'')])])"
    using t [THEN conjunct2, THEN conjunct2, THEN conjunct2, THEN conjunct2, THEN conjunct1,
        THEN mp, OF conjI [OF iteration_order_rev conjI [OF ou wu]]] .
  show ?thesis
    using r w we 1 iteration_order_rev oi wm wv 2 ou wu 3 by (intro conjI)
qed

text \<open>
  The claim fails for the map-based implementation, in three ways. The C++ standard
  leaves the order of iteration over a \<open>std::unordered_map\<close> open; libstdc++ links a new
  element at the front of its element list, so that a container into which \<open>"A"\<close> and then
  \<open>"B"\<close> were inserted is visited as \<open>"B"\<close>, \<open>"A"\<close> (the order \<open>rev\<close> on two elements):
  writing \<open>"B"\<close> to a file that holds \<open>"A"\<close> then puts \<open>"B"\<close> before \<open>"A"\<close>. In whatever
  order the container is visited, here the order of insertion, a first section \<open>"A"\<close>
  without entries is not in the container and is not written again. And on a file that
  can be written but not read, the sections of the file are lost.
\<close>

theorem write_other_section_map_counterexample:
  "writeSection_map rev \<lparr>content = Some ''[A]\<newline>x=1\<newline>\<newline>'', readable = True, writable = True\<rparr>
       ''B'' [(''y'', ''2'')]
     = (True, \<lparr>content = Some ''[B]\<newline>y=2\<newline>\<newline>[A]\<newline>x=1\<newline>\<newline>'', readable = True, writable = True\<rparr>)
   \<and> writeSection_map (\<lambda>m. m) \<lparr>content = Some ''[A]\<newline>\<newline>[C]\<newline>z=3\<newline>\<newline>'', readable = True, writable = True\<rparr>
       ''B'' [(''y'', ''2'')]
     = (True, \<lparr>content = Some ''[C]\<newline>z=3\<newline>\<newline>[B]\<newline>y=2\<newline>\<newline>'', readable = True, writable = True\<rparr>)
   \<and> writeSection_map (\<lambda>m. m) \<lparr>content = Some ''[A]\<newline>x=1\<newline>\<newline>'', readable = False, writable = True\<rparr>
       ''B'' [(''y'', ''2'')]
     = (True, \<lparr>content = Some ''[B]\<newline>y=2\<newline>\<newline>'', readable = False, writable = True\<rparr>)"
  by code_simp

text \<open>
  Claim C3, as far as it holds. \<open>writeSection\<close> of the map-based implementation returns
  false exactly when the file cannot be opened for writing, and a failed reading of the
  file does not make it fail. \<open>writeSection\<close> of the struct-based implementation returns
  false exactly when the file cannot be opened for reading or cannot be opened for
  writing. A call that returns false leaves the file as it was.
\<close>

theorem writeSection_failure:
  "(fst (writeSection_map ord fs n ents) = False \<longleftrightarrow> \<not> open_out fs)
   \<and> (fst (writeSection fs sec) = False \<longleftrightarrow> open_in fs = None \<or> \<not> open_out fs)
   \<and> (fst (writeSection_map ord fs n ents) = False \<longrightarrow> snd (writeSection_map ord fs n ents) = fs)
   \<and> (fst (writeSection fs sec) = False \<longrightarrow> snd (writeSection fs sec) = fs)"
  by (auto simp: writeSection_map_def writeSection_def readAll_def Let_def split: option.splits)

theorem writeSection_failure_witness:
  "open_in \<lparr>content = None, readable = True, writable = True\<rparr> = None
   \<and> open_out \<lparr>content = None, readable = True, writable = True\<rparr>
   \<and> fst (writeSection_map rev \<lparr>content = None, readable = True, writable = True\<rparr>
        ''S'' [(''K'', ''V'')]) = True
   \<and> fst (writeSection \<lparr>content = None, readable = True, writable = True\<rparr>
        \<lparr>sname = ''S'', entries = [\<lparr>ename = ''K'', evalue = ''V''\<rparr>]\<rparr>) = False
   \<and> snd (writeSection \<lparr>content = None, readable = True, writable = True\<rparr>
        \<lparr>sname = ''S'', entries = [\<lparr>ename = ''K'', evalue = ''V''\<rparr>]\<rparr>)
      = \<lparr>content = None, readable = True, writable = True\<rparr>
   \<and> \<not> open_out \<lparr>content = Some [], readable = True, writable = False\<rparr>
   \<and> fst (writeSection_map rev \<lparr>content = Some [], readable = True, writable = False\<rparr>
        ''S'' [(''K'', ''V'')]) = False
   \<and> snd (writeSection_map rev \<lparr>content = Some [], readable = True, writable = False\<rparr>
        ''S'' [(''K'', ''V'')]) = \<lparr>content = Some [], readable = True, writable = False\<rparr>"
proof -
  let ?F = "\<lparr>content = None, readable = True, writable = True\<rparr>"
  let ?G = "\<lparr>content = Some [], readable = True, writable = False\<rparr>"
  let ?sec = "\<lparr>sname = ''S'', entries = [\<lparr>ename = ''K'', evalue = ''V''\<rparr>]\<rparr>"
  have i: "open_in ?F = None" and o: "open_out ?F" and g: "\<not> open_out ?G"
    by (simp_all add: open_in_def open_out_def)
  show ?thesis
    using writeSection_failure [of rev ?F "''S''" "[(''K'', ''V'')]" ?sec]
      writeSection_failure [of rev ?G "''S''" "[(''K'', ''V'')]" ?sec] i o g
    by simp
qed

text \<open>
  The claim fails for the struct-based implementation: its \<open>writeSection\<close> begins with
  \<open>if (!readAll()) return false\<close>, so it returns false on a file that can be opened for
  writing but not for reading.
\<close>

theorem writeSection_unreadable_counterexample:
  "open_out \<lparr>content = Some ''[S]\<newline>K=V\<newline>\<newline>'', readable = False, writable = True\<rparr>
   \<and> writeSection \<lparr>content = Some ''[S]\<newline>K=V\<newline>\<newline>'', readable = False, writable = True\<rparr>
        \<lparr>sname = ''S'', entries = [\<lparr>ename = ''K'', evalue = ''W''\<rparr>]\<rparr>
      = (False, \<lparr>content = Some ''[S]\<newline>K=V\<newline>\<newline>'', readable = False, writable = True\<rparr>)"
  by code_simp




subsection \<open>Reading a value\<close>




lemma section_value_first:
  "\<forall>s\<in>set pre. sname s \<noteq> n \<Longrightarrow> sname b = n \<Longrightarrow>
   section_value (pre @ b # post) n k = (case entry_value (entries b) k of Some v \<Rightarrow> v | None \<Rightarrow> [])"
  by (induction pre) auto






subsection \<open>The parsers line by line\<close>

lemma header_name_between: "header_name l = butlast (tl l)"
proof (cases l)
  case Nil
  then show ?thesis by (simp add: header_name_def substr_def)
next
  case (Cons c cs)
  then show ?thesis by (simp add: header_name_def substr_def butlast_conv_take)
qed

lemma parse_line_header_line:
  "l \<noteq> [] \<Longrightarrow> is_header l \<Longrightarrow>
   parse_line (secs, c) l = (secs @ [\<lparr>sname = header_name l, entries = []\<rparr>], Some (length secs))"
  by (simp add: parse_line_def)

lemma parse_line_map_header_line:
  "l \<noteq> [] \<Longrightarrow> is_header l \<Longrightarrow> parse_line_map (m, c) l = (m, header_name l)"
  by (simp add: parse_line_map_def)

lemma foldl_parse_line_back:
  "snd (foldl parse_line (secs, back_index secs) ls)
     = back_index (fst (foldl parse_line (secs, back_index secs) ls))"
proof (induction ls arbitrary: secs)
  case Nil
  then show ?case by simp
next
  case (Cons l ls)
  obtain secs' c' where st: "parse_line (secs, back_index secs) l = (secs', c')"
    by (cases "parse_line (secs, back_index secs) l")
  have "c' = back_index secs'" using parse_line_back [OF refl st] .
  then show ?case using Cons.IH [of secs'] st by simp
qed

lemma parse_state:
  "foldl parse_line ([], None) ls = (parse_lines ls, back_index (parse_lines ls))"
  using foldl_parse_line_back [of "[]" ls] by (simp add: parse_lines_def back_index_def prod_eq_iff)

lemma parse_lines_snoc:
  "parse_lines (ls @ [l]) = fst (parse_line (parse_lines ls, back_index (parse_lines ls)) l)"
  by (simp add: parse_lines_def [of "ls @ [l]"] parse_state)

lemma parse_lines_header:
  "l \<noteq> [] \<Longrightarrow> is_header l \<Longrightarrow>
   parse_lines (ls @ [l]) = parse_lines ls @ [\<lparr>sname = header_name l, entries = []\<rparr>]"
  by (simp add: parse_lines_snoc parse_line_header_line)

lemma update_last: "xs \<noteq> [] \<Longrightarrow> xs[length xs - 1 := f (xs ! (length xs - 1))] = butlast xs @ [f (last xs)]"
  by (cases xs rule: rev_cases) (simp_all add: nth_append)

lemma parse_lines_kv:
  assumes "l \<noteq> []" "\<not> is_header l" "find_char CHR ''='' l = Some pos" "parse_lines ls \<noteq> []"
  shows "parse_lines (ls @ [l]) = butlast (parse_lines ls) @
    [(last (parse_lines ls))\<lparr>entries := entries (last (parse_lines ls)) @
        [\<lparr>ename = substr l 0 pos, evalue = substr_from l (pos + 1)\<rparr>]\<rparr>]"
proof -
  let ?S = "parse_lines ls"
  let ?f = "\<lambda>s. s\<lparr>entries := entries s @ [\<lparr>ename = substr l 0 pos, evalue = substr_from l (pos + 1)\<rparr>]\<rparr>"
  have "parse_lines (ls @ [l]) = ?S[length ?S - 1 := ?f (?S ! (length ?S - 1))]"
    using assms by (simp add: parse_lines_snoc parse_line_def back_index_def)
  also have "\<dots> = butlast ?S @ [?f (last ?S)]"
    using assms(4) by (rule update_last)
  finally show ?thesis .
qed

lemma map_sname_update: "map sname (secs[i := (secs ! i)\<lparr>entries := es\<rparr>]) = map sname secs"
  by (cases "i < length secs") (simp_all add: map_update list_update_same_conv list_update_beyond)

lemma parse_line_names:
  "map sname (fst (parse_line (secs, c) l))
     = map sname secs @ (if l \<noteq> [] \<and> is_header l then [header_name l] else [])"
  by (simp add: parse_line_def map_sname_update split: option.splits)

lemma foldl_parse_line_names:
  "map sname (fst (foldl parse_line st ls))
     = map sname (fst st) @ map header_name (filter (\<lambda>l. l \<noteq> [] \<and> is_header l) ls)"
proof (induction ls arbitrary: st)
  case Nil
  then show ?case by simp
next
  case (Cons l ls)
  obtain secs c where st: "st = (secs, c)" by (cases st)
  show ?case using Cons.IH [of "parse_line st l"] parse_line_names [of secs c l] st by simp
qed

lemma parse_lines_names:
  "map sname (parse_lines ls) = map header_name (filter (\<lambda>l. l \<noteq> [] \<and> is_header l) ls)"
  using foldl_parse_line_names [of "([], None)" ls] by (simp add: parse_lines_def)

lemma parse_before_header:
  "\<forall>l\<in>set pre. l \<noteq> [] \<longrightarrow> \<not> is_header l \<Longrightarrow> foldl parse_line ([], None) pre = ([], None)"
proof (induction pre)
  case Nil
  then show ?case by simp
next
  case (Cons l pre)
  have "parse_line ([], None) l = ([], None)"
    using Cons.prems by (simp add: parse_line_def split: option.splits)
  then show ?case using Cons by simp
qed

lemma parse_lines_drop_before_header:
  "\<forall>l\<in>set pre. l \<noteq> [] \<longrightarrow> \<not> is_header l \<Longrightarrow> parse_lines (pre @ rest) = parse_lines rest"
  by (simp add: parse_lines_def parse_before_header)

lemma parse_line_map_keeps_first:
  assumes "map_of m n = Some (x # es)"
  shows "\<exists>es'. map_of (fst (parse_line_map (m, c) l)) n = Some (x # es')"
proof (cases "l = [] \<or> is_header l \<or> find_char CHR ''='' l = None")
  case True
  then show ?thesis using assms by (auto simp: parse_line_map_def)
next
  case False
  then obtain pos where "find_char CHR ''='' l = Some pos" "l \<noteq> []" "\<not> is_header l" by auto
  then have "fst (parse_line_map (m, c) l)
      = um_emplace_back m c (substr l 0 pos, substr_from l (pos + 1))"
    by (simp add: parse_line_map_def)
  then show ?thesis using assms by (auto simp: map_of_um_emplace_back um_at_def)
qed

lemma foldl_parse_line_map_keeps_first:
  "map_of (fst st) n = Some (x # es) \<Longrightarrow>
   \<exists>es'. map_of (fst (foldl parse_line_map st ls)) n = Some (x # es')"
proof (induction ls arbitrary: st es)
  case Nil
  then show ?case by simp
next
  case (Cons l ls)
  obtain m c where st: "st = (m, c)" by (cases st)
  obtain es1 where "map_of (fst (parse_line_map st l)) n = Some (x # es1)"
    using parse_line_map_keeps_first [of m n x es c l] Cons.prems st by auto
  from Cons.IH [OF this] show ?case by simp
qed

lemma parse_line_map_distinct:
  "distinct (map fst m) \<Longrightarrow> distinct (map fst (fst (parse_line_map (m, c) l)))"
  by (auto simp: parse_line_map_def um_emplace_back_keys split: option.splits)

lemma foldl_parse_line_map_distinct:
  "distinct (map fst (fst st)) \<Longrightarrow> distinct (map fst (fst (foldl parse_line_map st ls)))"
proof (induction ls arbitrary: st)
  case Nil
  then show ?case by simp
next
  case (Cons l ls)
  obtain m c where st: "st = (m, c)" by (cases st)
  show ?case using Cons.IH [of "parse_line_map st l"] parse_line_map_distinct [of m c l] Cons.prems st
    by simp
qed

lemma parse_lines_map_distinct: "distinct (map fst (parse_lines_map ls))"
  using foldl_parse_line_map_distinct [of "([], [])" ls] by (simp add: parse_lines_map_def)

lemma parse_lines_map_header_kv:
  assumes "l1 \<noteq> []" "is_header l1" "l2 \<noteq> []" "\<not> is_header l2" "find_char CHR ''='' l2 = Some pos"
  shows "map_of (parse_lines_map (ls @ [l1, l2])) (header_name l1)
    = Some (um_at (parse_lines_map ls) (header_name l1) @ [(substr l2 0 pos, substr_from l2 (pos + 1))])"
proof -
  obtain m c where st: "foldl parse_line_map ([], []) ls = (m, c)"
    by (cases "foldl parse_line_map ([], []) ls")
  then have m: "parse_lines_map ls = m" by (simp add: parse_lines_map_def)
  have "parse_line_map (m, header_name l1) l2
      = (um_emplace_back m (header_name l1) (substr l2 0 pos, substr_from l2 (pos + 1)), header_name l1)"
    using assms(3,4,5) by (simp add: parse_line_map_def)
  then have "parse_lines_map (ls @ [l1, l2])
      = um_emplace_back m (header_name l1) (substr l2 0 pos, substr_from l2 (pos + 1))"
    using st assms(1,2) by (simp add: parse_lines_map_def parse_line_map_header_line)
  then show ?thesis using m by (simp add: map_of_um_emplace_back)
qed

lemma section_nonempty_first:
  "\<forall>s\<in>set pre. sname s \<noteq> n \<Longrightarrow> sname b = n \<Longrightarrow>
   section_nonempty (pre @ b # post) n = (entries b \<noteq> [])"
  by (induction pre) auto

text \<open>
  Claim C4, as far as it holds. In the struct-based implementation the lines before the
  first header line are discarded: the sections read are those parsed from the remaining
  lines alone, and so are the results of \<open>readEntry\<close> and \<open>readSection\<close>. In the map-based
  implementation a key=value line at the beginning of the file is an entry of the section
  named by the empty string: \<open>readValue\<close> with that name and the key returns the value,
  and \<open>readSection\<close> with that name succeeds and delivers that entry first.
\<close>

theorem lines_before_first_header:
  "(open_in fs = Some bytes \<and> getlines bytes = pre @ rest
      \<and> (\<forall>l\<in>set pre. l \<noteq> [] \<longrightarrow> \<not> is_header l) \<longrightarrow>
      readAll fs = Some (parse_lines rest)
      \<and> readEntry fs n e = section_value (parse_lines rest) n (ename e)
      \<and> readSection fs sec = section_nonempty (parse_lines rest) (sname sec))
   \<and> (open_in fm = Some mbytes \<and> getlines mbytes = l # mrest \<and> l \<noteq> [] \<and> \<not> is_header l
      \<and> find_char CHR ''='' l = Some pos \<longrightarrow>
      readValue_map fm [] (substr l 0 pos) = substr_from l (pos + 1)
      \<and> fst (readSection_map fm [] out) = True
      \<and> (\<exists>es'. readSection_map fm [] out
            = (True, (substr l 0 pos, substr_from l (pos + 1)) # es')))"
proof (intro conjI impI)
  assume h: "open_in fs = Some bytes \<and> getlines bytes = pre @ rest
      \<and> (\<forall>l\<in>set pre. l \<noteq> [] \<longrightarrow> \<not> is_header l)"
  then have r: "readAll fs = Some (parse_lines rest)"
    by (simp add: readAll_def parse_lines_drop_before_header)
  then show "readAll fs = Some (parse_lines rest)"
    and "readEntry fs n e = section_value (parse_lines rest) n (ename e)"
    and "readSection fs sec = section_nonempty (parse_lines rest) (sname sec)"
    by (simp_all add: readEntry_def readSection_def)
next
  assume h: "open_in fm = Some mbytes \<and> getlines mbytes = l # mrest \<and> l \<noteq> [] \<and> \<not> is_header l
      \<and> find_char CHR ''='' l = Some pos"
  let ?k = "substr l 0 pos" and ?v = "substr_from l (pos + 1)"
  have r: "readAll_map fm = Some (parse_lines_map (l # mrest))"
    using h by (simp add: readAll_map_def)
  have "parse_line_map ([], []) l = ([([], [(?k, ?v)])], [])"
    using h by (simp add: parse_line_map_def)
  then have "parse_lines_map (l # mrest) = fst (foldl parse_line_map ([([], [(?k, ?v)])], []) mrest)"
    by (simp add: parse_lines_map_def)
  moreover have "\<exists>es'. map_of (fst (foldl parse_line_map ([([], [(?k, ?v)])], []) mrest)) []
      = Some ((?k, ?v) # es')"
    by (rule foldl_parse_line_map_keeps_first [of _ _ _ "[]"]) simp
  ultimately obtain es' where m: "map_of (parse_lines_map (l # mrest)) [] = Some ((?k, ?v) # es')"
    by auto
  show "readValue_map fm [] ?k = ?v"
    using r m by (simp add: readValue_map_def um_count_def um_at_def)
  show "fst (readSection_map fm [] out) = True"
    using r m by (simp add: readSection_map_def um_count_def)
  show "\<exists>es'. readSection_map fm [] out = (True, (?k, ?v) # es')"
    using r m by (simp add: readSection_map_def um_count_def um_at_def)
qed

theorem lines_before_first_header_witness:
  "open_in \<lparr>content = Some ''k=v\<newline>[S]\<newline>a=b\<newline>'', readable = True, writable = True\<rparr>
     = Some ''k=v\<newline>[S]\<newline>a=b\<newline>''
   \<and> getlines ''k=v\<newline>[S]\<newline>a=b\<newline>'' = [''k=v''] @ [''[S]'', ''a=b'']
   \<and> \<not> is_header ''k=v''
   \<and> find_char CHR ''='' ''k=v'' = Some 1
   \<and> readAll \<lparr>content = Some ''k=v\<newline>[S]\<newline>a=b\<newline>'', readable = True, writable = True\<rparr>
     = Some [\<lparr>sname = ''S'', entries = [\<lparr>ename = ''a'', evalue = ''b''\<rparr>]\<rparr>]
   \<and> readValue_map \<lparr>content = Some ''k=v\<newline>[S]\<newline>a=b\<newline>'', readable = True, writable = True\<rparr>
        [] ''k'' = ''v''"
proof -
  let ?F = "\<lparr>content = Some ''k=v\<newline>[S]\<newline>a=b\<newline>'', readable = True, writable = True\<rparr>"
  have o: "open_in ?F = Some ''k=v\<newline>[S]\<newline>a=b\<newline>''" by (simp add: open_in_def)
  have g: "getlines ''k=v\<newline>[S]\<newline>a=b\<newline>'' = [''k=v''] @ [''[S]'', ''a=b'']" by code_simp
  have g': "getlines ''k=v\<newline>[S]\<newline>a=b\<newline>'' = ''k=v'' # [''[S]'', ''a=b'']" by code_simp
  have p: "\<forall>l\<in>set [''k=v'']. l \<noteq> [] \<longrightarrow> \<not> is_header l" by (simp add: is_header_def)
  have ne: "''k=v'' \<noteq> []" and nh: "\<not> is_header ''k=v''" by (simp_all add: is_header_def)
  have f: "find_char CHR ''='' ''k=v'' = Some 1" by simp
  have pr: "parse_lines [''[S]'', ''a=b''] = [\<lparr>sname = ''S'', entries = [\<lparr>ename = ''a'', evalue = ''b''\<rparr>]\<rparr>]"
    by code_simp
  have sk: "substr ''k=v'' 0 1 = ''k''" and sv: "substr_from ''k=v'' (1 + 1) = ''v''"
    by (simp_all add: substr_def substr_from_def)
  note t = lines_before_first_header [where fs = ?F and bytes = "''k=v\<newline>[S]\<newline>a=b\<newline>''"
      and pre = "[''k=v'']" and rest = "[''[S]'', ''a=b'']" and fm = ?F
      and mbytes = "''k=v\<newline>[S]\<newline>a=b\<newline>''" and l = "''k=v''" and mrest = "[''[S]'', ''a=b'']"
      and pos = 1]
  have 1: "readAll ?F = Some (parse_lines [''[S]'', ''a=b''])"
    using t [THEN conjunct1, THEN mp, OF conjI [OF o conjI [OF g p]], THEN conjunct1] .
  have 2: "readValue_map ?F [] (substr ''k=v'' 0 1) = substr_from ''k=v'' (1 + 1)"
    using t [THEN conjunct2, THEN mp,
        OF conjI [OF o conjI [OF g' conjI [OF ne conjI [OF nh f]]]], THEN conjunct1] .
  show ?thesis using o g nh f 1 2 pr sk sv by simp
qed

text \<open>
  The claim fails for the map-based implementation: \<open>currentSection\<close> starts as the empty
  string and \<open>outData[currentSection]\<close> stores the line under that name.
\<close>

theorem line_before_header_map_counterexample:
  "readValue_map \<lparr>content = Some ''k=v\<newline>[S]\<newline>a=b\<newline>'', readable = True, writable = True\<rparr> [] ''k''
     = ''v''
   \<and> readSection_map \<lparr>content = Some ''k=v\<newline>[S]\<newline>a=b\<newline>'', readable = True, writable = True\<rparr> [] []
     = (True, [(''k'', ''v'')])"
  by code_simp

text \<open>
  Claim C6, as far as it holds. In the struct-based implementation the names of the
  sections in memory are the names of the header lines of the file, in their order and
  with their repetitions; a key=value line is added to the last section, never to an
  earlier section of the same name; and the searches of \<open>readEntry\<close>, \<open>readSection\<close>,
  \<open>writeSection\<close> and \<open>writeEntry\<close> take the first section of the name. In the map-based
  implementation the parsed data hold each name once, and an entry under a later header
  of a name is added to the entries already stored under that name.
\<close>

theorem duplicate_section_headers:
  "map sname (parse_lines ls) = map header_name (filter (\<lambda>l. l \<noteq> [] \<and> is_header l) ls)
   \<and> (l \<noteq> [] \<and> \<not> is_header l \<and> find_char CHR ''='' l = Some pos \<and> parse_lines ls \<noteq> [] \<longrightarrow>
        parse_lines (ls @ [l]) = butlast (parse_lines ls) @
          [(last (parse_lines ls))\<lparr>entries := entries (last (parse_lines ls)) @
              [\<lparr>ename = substr l 0 pos, evalue = substr_from l (pos + 1)\<rparr>]\<rparr>])
   \<and> ((\<forall>s\<in>set pre. sname s \<noteq> n) \<and> sname b = n \<longrightarrow>
        section_value (pre @ b # post) n k
          = (case entry_value (entries b) k of Some v \<Rightarrow> v | None \<Rightarrow> [])
        \<and> section_nonempty (pre @ b # post) n = (entries b \<noteq> [])
        \<and> put_section (pre @ b # post) \<lparr>sname = n, entries = es\<rparr> = pre @ b\<lparr>entries := es\<rparr> # post
        \<and> (\<exists>es'. put_entry (pre @ b # post) n e = pre @ b\<lparr>entries := es'\<rparr> # post))
   \<and> distinct (map fst (parse_lines_map ms))
   \<and> (l1 \<noteq> [] \<and> is_header l1 \<and> l2 \<noteq> [] \<and> \<not> is_header l2 \<and> find_char CHR ''='' l2 = Some p2 \<longrightarrow>
        map_of (parse_lines_map (ms @ [l1, l2])) (header_name l1)
          = Some (um_at (parse_lines_map ms) (header_name l1)
                  @ [(substr l2 0 p2, substr_from l2 (p2 + 1))]))"
proof (intro conjI impI)
  show "map sname (parse_lines ls) = map header_name (filter (\<lambda>l. l \<noteq> [] \<and> is_header l) ls)"
    by (rule parse_lines_names)
next
  assume "l \<noteq> [] \<and> \<not> is_header l \<and> find_char CHR ''='' l = Some pos \<and> parse_lines ls \<noteq> []"
  then show "parse_lines (ls @ [l]) = butlast (parse_lines ls) @
          [(last (parse_lines ls))\<lparr>entries := entries (last (parse_lines ls)) @
              [\<lparr>ename = substr l 0 pos, evalue = substr_from l (pos + 1)\<rparr>]\<rparr>]"
    by (simp add: parse_lines_kv)
next
  assume h: "(\<forall>s\<in>set pre. sname s \<noteq> n) \<and> sname b = n"
  then show "section_value (pre @ b # post) n k
          = (case entry_value (entries b) k of Some v \<Rightarrow> v | None \<Rightarrow> [])"
    by (simp add: section_value_first)
  show "section_nonempty (pre @ b # post) n = (entries b \<noteq> [])"
    using h by (simp add: section_nonempty_first)
  show "put_section (pre @ b # post) \<lparr>sname = n, entries = es\<rparr> = pre @ b\<lparr>entries := es\<rparr> # post"
    using h put_section_first [of pre "\<lparr>sname = n, entries = es\<rparr>" b post] by simp
  show "\<exists>es'. put_entry (pre @ b # post) n e = pre @ b\<lparr>entries := es'\<rparr> # post"
    using h put_entry_first [of pre n b post e] by blast
next
  show "distinct (map fst (parse_lines_map ms))" by (rule parse_lines_map_distinct)
next
  assume "l1 \<noteq> [] \<and> is_header l1 \<and> l2 \<noteq> [] \<and> \<not> is_header l2 \<and> find_char CHR ''='' l2 = Some p2"
  then show "map_of (parse_lines_map (ms @ [l1, l2])) (header_name l1)
          = Some (um_at (parse_lines_map ms) (header_name l1)
                  @ [(substr l2 0 p2, substr_from l2 (p2 + 1))])"
    by (simp add: parse_lines_map_header_kv)
qed

theorem duplicate_section_headers_witness:
  "parse_lines [''[S]'', ''a=1'', ''[S]'']
     = [\<lparr>sname = ''S'', entries = [\<lparr>ename = ''a'', evalue = ''1''\<rparr>]\<rparr>, \<lparr>sname = ''S'', entries = []\<rparr>]
   \<and> find_char CHR ''='' ''b=2'' = Some 1 \<and> \<not> is_header ''b=2'' \<and> is_header ''[S]''
   \<and> map sname (parse_lines [''[S]'', ''a=1'', ''[S]'']) = [''S'', ''S'']
   \<and> parse_lines ([''[S]'', ''a=1'', ''[S]''] @ [''b=2''])
     = [\<lparr>sname = ''S'', entries = [\<lparr>ename = ''a'', evalue = ''1''\<rparr>]\<rparr>,
        \<lparr>sname = ''S'', entries = [\<lparr>ename = ''b'', evalue = ''2''\<rparr>]\<rparr>]
   \<and> section_value ([] @ \<lparr>sname = ''S'', entries = [\<lparr>ename = ''a'', evalue = ''1''\<rparr>]\<rparr>
        # [\<lparr>sname = ''S'', entries = [\<lparr>ename = ''b'', evalue = ''2''\<rparr>]\<rparr>]) ''S'' ''b'' = []
   \<and> map_of (parse_lines_map ([''[S]'', ''a=1''] @ [''[S]'', ''b=2''])) ''S''
     = Some [(''a'', ''1''), (''b'', ''2'')]"
proof -
  let ?ls = "[''[S]'', ''a=1'', ''[S]'']"
  let ?b = "\<lparr>sname = ''S'', entries = [\<lparr>ename = ''a'', evalue = ''1''\<rparr>]\<rparr>"
  let ?b2 = "\<lparr>sname = ''S'', entries = [\<lparr>ename = ''b'', evalue = ''2''\<rparr>]\<rparr>"
  have p: "parse_lines ?ls = [?b, \<lparr>sname = ''S'', entries = []\<rparr>]" by code_simp
  have f: "find_char CHR ''='' ''b=2'' = Some 1" by simp
  have nh: "\<not> is_header ''b=2''" and ne: "''b=2'' \<noteq> []" and ne1: "''[S]'' \<noteq> []"
    and ih: "is_header ''[S]''"
    by (simp_all add: is_header_def)
  have pne: "parse_lines ?ls \<noteq> []" using p by simp
  have hn: "header_name ''[S]'' = ''S''" by (simp add: header_name_def substr_def)
  have pm: "um_at (parse_lines_map [''[S]'', ''a=1'']) ''S'' = [(''a'', ''1'')]" by code_simp
  have pre: "(\<forall>s\<in>set []. sname s \<noteq> ''S'') \<and> sname ?b = ''S''" by simp
  note t = duplicate_section_headers [where ls = ?ls and l = "''b=2''" and pos = 1
      and pre = "[]" and b = ?b and post = "[?b2]" and n = "''S''" and k = "''b''"
      and ms = "[''[S]'', ''a=1'']" and ?l1.0 = "''[S]''" and ?l2.0 = "''b=2''" and ?p2.0 = 1]
  have 1: "map sname (parse_lines ?ls) = map header_name (filter (\<lambda>l. l \<noteq> [] \<and> is_header l) ?ls)"
    using t [THEN conjunct1] .
  have 2: "parse_lines (?ls @ [''b=2'']) = butlast (parse_lines ?ls) @
      [(last (parse_lines ?ls))\<lparr>entries := entries (last (parse_lines ?ls)) @
          [\<lparr>ename = substr ''b=2'' 0 1, evalue = substr_from ''b=2'' (1 + 1)\<rparr>]\<rparr>]"
    using t [THEN conjunct2, THEN conjunct1, THEN mp, OF conjI [OF ne conjI [OF nh conjI [OF f pne]]]] .
  have 3: "section_value ([] @ ?b # [?b2]) ''S'' ''b''
      = (case entry_value (entries ?b) ''b'' of Some v \<Rightarrow> v | None \<Rightarrow> [])"
    using t [THEN conjunct2, THEN conjunct2, THEN conjunct1, THEN mp, OF pre, THEN conjunct1] .
  have 4: "map_of (parse_lines_map ([''[S]'', ''a=1''] @ [''[S]'', ''b=2''])) (header_name ''[S]'')
      = Some (um_at (parse_lines_map [''[S]'', ''a=1'']) (header_name ''[S]'')
              @ [(substr ''b=2'' 0 1, substr_from ''b=2'' (1 + 1))])"
    using t [THEN conjunct2, THEN conjunct2, THEN conjunct2, THEN conjunct2, THEN mp,
        OF conjI [OF ne1 conjI [OF ih conjI [OF ne conjI [OF nh f]]]]] .
  have r1: "map sname (parse_lines ?ls) = [''S'', ''S'']"
    using 1 ih nh hn by (simp add: is_header_def)
  have r2: "parse_lines (?ls @ [''b=2'']) = [?b, ?b2]"
    using 2 p by (simp add: substr_def substr_from_def)
  have r3: "section_value ([] @ ?b # [?b2]) ''S'' ''b'' = []" using 3 by simp
  have r4: "map_of (parse_lines_map ([''[S]'', ''a=1''] @ [''[S]'', ''b=2''])) ''S''
      = Some [(''a'', ''1''), (''b'', ''2'')]"
    using 4 hn pm by (simp add: substr_def substr_from_def)
  show ?thesis using p f nh ih r1 r2 r3 r4 by simp
qed

text \<open>
  The claim fails for the map-based implementation: the entries under two header lines
  of one name are one section in memory.
\<close>

theorem duplicate_headers_merged_counterexample:
  "readAll_map \<lparr>content = Some ''[S]\<newline>a=1\<newline>[S]\<newline>b=2\<newline>'', readable = True, writable = True\<rparr>
     = Some [(''S'', [(''a'', ''1''), (''b'', ''2'')])]"
  by code_simp

text \<open>
  Claim C9. A line that begins with \<open>[\<close> and ends with \<open>]\<close> is a header line for both
  parsers, whether or not it contains \<open>=\<close>: the struct-based parser adds a section without
  entries, named by the characters between the first and the last one, and makes it the
  current section; the map-based parser leaves the container as it is and makes that name
  the current section. This holds for a single step in any state and for the last line
  of any sequence of lines.
\<close>

theorem bracketed_line_is_header:
  "l \<noteq> [] \<and> hd l = CHR ''['' \<and> last l = CHR '']'' \<longrightarrow>
     parse_line (secs, c) l = (secs @ [\<lparr>sname = butlast (tl l), entries = []\<rparr>], Some (length secs))
     \<and> parse_lines (ls @ [l]) = parse_lines ls @ [\<lparr>sname = butlast (tl l), entries = []\<rparr>]
     \<and> parse_line_map (m, cs) l = (m, butlast (tl l))
     \<and> foldl parse_line_map ([], []) (ls @ [l]) = (parse_lines_map ls, butlast (tl l))"
proof
  assume h: "l \<noteq> [] \<and> hd l = CHR ''['' \<and> last l = CHR '']''"
  then have ne: "l \<noteq> []" and ih: "is_header l" by (simp_all add: is_header_def)
  have "foldl parse_line_map ([], []) (ls @ [l])
      = parse_line_map (parse_lines_map ls, snd (foldl parse_line_map ([], []) ls)) l"
    by (simp add: parse_lines_map_def)
  then have "foldl parse_line_map ([], []) (ls @ [l]) = (parse_lines_map ls, header_name l)"
    using ne ih by (simp add: parse_line_map_header_line)
  then show "parse_line (secs, c) l = (secs @ [\<lparr>sname = butlast (tl l), entries = []\<rparr>], Some (length secs))
     \<and> parse_lines (ls @ [l]) = parse_lines ls @ [\<lparr>sname = butlast (tl l), entries = []\<rparr>]
     \<and> parse_line_map (m, cs) l = (m, butlast (tl l))
     \<and> foldl parse_line_map ([], []) (ls @ [l]) = (parse_lines_map ls, butlast (tl l))"
    using ne ih
    by (simp add: parse_line_header_line parse_lines_header parse_line_map_header_line
        header_name_between)
qed

theorem bracketed_line_is_header_witness:
  "''[a=b]'' \<noteq> [] \<and> hd ''[a=b]'' = CHR ''['' \<and> last ''[a=b]'' = CHR '']''
   \<and> parse_line ([\<lparr>sname = ''S'', entries = []\<rparr>], Some 0) ''[a=b]''
     = ([\<lparr>sname = ''S'', entries = []\<rparr>, \<lparr>sname = ''a=b'', entries = []\<rparr>], Some 1)
   \<and> parse_lines ([''[S]'', ''x=y''] @ [''[a=b]''])
     = parse_lines [''[S]'', ''x=y''] @ [\<lparr>sname = ''a=b'', entries = []\<rparr>]
   \<and> parse_line_map ([(''S'', [(''x'', ''y'')])], ''S'') ''[a=b]'' = ([(''S'', [(''x'', ''y'')])], ''a=b'')
   \<and> foldl parse_line_map ([], []) ([''[S]'', ''x=y''] @ [''[a=b]''])
     = (parse_lines_map [''[S]'', ''x=y''], ''a=b'')"
proof -
  have h: "''[a=b]'' \<noteq> [] \<and> hd ''[a=b]'' = CHR ''['' \<and> last ''[a=b]'' = CHR '']''" by simp
  show ?thesis
    using bracketed_line_is_header [where l = "''[a=b]''" and secs = "[\<lparr>sname = ''S'', entries = []\<rparr>]"
        and c = "Some 0" and ls = "[''[S]'', ''x=y'']" and m = "[(''S'', [(''x'', ''y'')])]"
        and cs = "''S''", THEN mp, OF h] h
    by simp
qed

subsection \<open>A key that occurs once\<close>

lemma find_Some_split:
  "List.find P xs = Some b \<Longrightarrow> \<exists>pre post. xs = pre @ b # post \<and> P b \<and> (\<forall>x\<in>set pre. \<not> P x)"
proof (induction xs)
  case Nil
  then show ?case by simp
next
  case (Cons x xs)
  show ?case
  proof (cases "P x")
    case True
    then have "x # xs = [] @ b # xs \<and> P b \<and> (\<forall>x\<in>set []. \<not> P x)" using Cons.prems by simp
    then show ?thesis by blast
  next
    case False
    then obtain pre post where "xs = pre @ b # post \<and> P b \<and> (\<forall>x\<in>set pre. \<not> P x)"
      using Cons by auto
    then have "x # xs = (x # pre) @ b # post \<and> P b \<and> (\<forall>y\<in>set (x # pre). \<not> P y)"
      using False by simp
    then show ?thesis by blast
  qed
qed

lemma find_first: "\<forall>x\<in>set pre. \<not> P x \<Longrightarrow> P b \<Longrightarrow> List.find P (pre @ b # post) = Some b"
  by (induction pre) auto

lemma set_value_single:
  "filter (\<lambda>x. ename x = ename e) es = [x0] \<Longrightarrow> set_value es e = (es1, found) \<Longrightarrow>
   found \<and> filter (\<lambda>x. ename x = ename e) es1 = [e]"
proof (induction es arbitrary: es1 found)
  case Nil
  then show ?case by simp
next
  case (Cons x es)
  show ?case
  proof (cases "ename x = ename e")
    case True
    then have "filter (\<lambda>x. ename x = ename e) es = []" "es1 = x\<lparr>evalue := evalue e\<rparr> # es" "found"
      using Cons.prems by auto
    moreover have "x\<lparr>evalue := evalue e\<rparr> = e" using True by simp
    ultimately show ?thesis using True by simp
  next
    case False
    obtain es2 f2 where r: "set_value es e = (es2, f2)" by (cases "set_value es e")
    then have "es1 = x # es2" "found = f2" using Cons.prems False by auto
    moreover have "filter (\<lambda>x. ename x = ename e) es = [x0]" using Cons.prems False by simp
    ultimately show ?thesis using Cons.IH [OF _ r] False by simp
  qed
qed

lemma entry_value_filter:
  "entry_value es k = (case filter (\<lambda>x. ename x = k) es of [] \<Rightarrow> None | x # _ \<Rightarrow> Some (evalue x))"
  by (induction es) auto

lemma set_kv_single:
  "filter (\<lambda>x. fst x = k) es = [x0] \<Longrightarrow> set_kv es k v = (es1, found) \<Longrightarrow>
   found \<and> filter (\<lambda>x. fst x = k) es1 = [(k, v)]"
proof (induction es arbitrary: es1 found)
  case Nil
  then show ?case by simp
next
  case (Cons x es)
  show ?case
  proof (cases "fst x = k")
    case True
    then have "filter (\<lambda>x. fst x = k) es = []" "es1 = (fst x, v) # es" "found"
      using Cons.prems by auto
    then show ?thesis using True by simp
  next
    case False
    obtain es2 f2 where r: "set_kv es k v = (es2, f2)" by (cases "set_kv es k v")
    then have "es1 = x # es2" "found = f2" using Cons.prems False by auto
    moreover have "filter (\<lambda>x. fst x = k) es = [x0]" using Cons.prems False by simp
    ultimately show ?thesis using Cons.IH [OF _ r] False by simp
  qed
qed

lemma kv_value_filter:
  "kv_value es k = (case filter (\<lambda>x. fst x = k) es of [] \<Rightarrow> [] | x # _ \<Rightarrow> snd x)"
  by (induction es) auto

lemma wf_map_lookup: "wf_map m \<Longrightarrow> map_of m n = Some es \<Longrightarrow> wf_map_section (n, es)"
  by (auto simp: wf_map_def list_all_iff dest: map_of_SomeD)

subsection \<open>Writing one value\<close>

lemma writeEntry_reread:
  assumes "readAll fs = Some secs" "nl \<notin> set n" "wf_entry e" "writeEntry fs n e = (True, fs')"
  shows "fs' = write_out fs (write_sections (put_entry secs n e))"
    and "readAll fs' = Some (put_entry secs n e)"
proof -
  show 1: "fs' = write_out fs (write_sections (put_entry secs n e))"
    using writeEntry_True [OF assms(4)] assms(1) by auto
  have "list_all wf_section (put_entry secs n e)"
    using readAll_wf [OF assms(1)] assms(2,3) by (rule put_entry_wf)
  then show "readAll fs' = Some (put_entry secs n e)"
    using 1 readAll_readable [OF assms(1)] by (simp add: readAll_write_out)
qed

lemma writeValue_map_reread:
  assumes "iteration_order ord" "readable fm" "nl \<notin> set n" "wf_kv k v"
    "set_kv (snd (readSection_map fm n [])) k v = (es1, found)"
    "writeValue_map ord fm n k v = (True, fm')"
  shows "readAll_map fm' = Some (ord (um_assign (load_map fm) n (if \<not> found then es1 @ [(k, v)] else es1)))"
    and "map_of (ord (um_assign (load_map fm) n (if \<not> found then es1 @ [(k, v)] else es1))) n
      = Some (if \<not> found then es1 @ [(k, v)] else es1)"
    and "fm' = write_out fm (write_map (ord (um_assign (load_map fm) n (if \<not> found then es1 @ [(k, v)] else es1))))"
proof -
  let ?es = "if \<not> found then es1 @ [(k, v)] else es1"
  have w: "writeSection_map ord fm n ?es = (True, fm')"
    using assms(5,6) by (simp add: writeValue_map_def)
  have "list_all (\<lambda>e. wf_kv (fst e) (snd e)) (snd (readSection_map fm n []))"
  proof (cases "readAll_map fm")
    case None
    then show ?thesis by (simp add: readSection_map_def)
  next
    case (Some m)
    show ?thesis
    proof (cases "map_of m n")
      case None
      then show ?thesis using Some by (simp add: readSection_map_def um_count_def)
    next
      case (Some es)
      then have "wf_map_section (n, es)"
        using readAll_map_wf [OF \<open>readAll_map fm = Some m\<close>] by (rule wf_map_lookup [rotated])
      then show ?thesis
        using Some \<open>readAll_map fm = Some m\<close>
        by (simp add: readSection_map_def um_count_def um_at_def wf_map_section_def)
    qed
  qed
  then have "list_all (\<lambda>e. wf_kv (fst e) (snd e)) es1"
    using set_kv_wf [OF assms(5,4)] by simp
  moreover have "?es \<noteq> []" using set_kv_found [of _ k v es1] assms(5) by (cases found) auto
  ultimately have wf: "wf_map_section (n, ?es)"
    using assms(3,4) by (simp add: wf_map_section_def)
  show "readAll_map fm' = Some (ord (um_assign (load_map fm) n ?es))"
    using readAll_map_written [OF assms(1) wf assms(2) w] .
  show "map_of (ord (um_assign (load_map fm) n ?es)) n = Some ?es"
    using map_of_written [OF assms(1), of fm n ?es] by simp
  show "fm' = write_out fm (write_map (ord (um_assign (load_map fm) n ?es)))"
    using writeSection_map_True [OF w] .
qed

text \<open>
  Claim C5, as far as it holds. In the struct-based implementation, let the file read
  hold exactly one entry with the key \<open>"K"\<close> in its first section named \<open>"S"\<close>; after a
  successful \<open>writeEntry\<close> of \<open>"S"\<close>, \<open>"K"\<close>, \<open>"new"\<close> the file written is read again with
  exactly one entry of the key \<open>"K"\<close> in that section, whose value is \<open>"new"\<close>, and
  \<open>readEntry\<close> gives \<open>"new"\<close>. In the map-based implementation, let the file be one that
  can be opened for reading and in which exactly one of the key=value lines under the
  headers named \<open>"S"\<close>, all taken together, has the key \<open>"K"\<close>; after a successful
  \<open>writeValue\<close> of \<open>"S"\<close>, \<open>"K"\<close>, \<open>"new"\<close>, \<open>readSection("S")\<close> on the file written
  delivers exactly one entry of the key \<open>"K"\<close>, whose value is \<open>"new"\<close>, and \<open>readValue\<close>
  gives \<open>"new"\<close>.
\<close>

theorem writeValue_updates_in_place:
  "(readAll fs = Some secs \<and> List.find (\<lambda>s. sname s = ''S'') secs = Some b
      \<and> filter (\<lambda>x. ename x = ''K'') (entries b) = [\<lparr>ename = ''K'', evalue = old\<rparr>]
      \<and> writeEntry fs ''S'' \<lparr>ename = ''K'', evalue = ''new''\<rparr> = (True, fs') \<longrightarrow>
      (\<exists>secs' b'. readAll fs' = Some secs' \<and> List.find (\<lambda>s. sname s = ''S'') secs' = Some b'
          \<and> filter (\<lambda>x. ename x = ''K'') (entries b') = [\<lparr>ename = ''K'', evalue = ''new''\<rparr>])
      \<and> readEntry fs' ''S'' \<lparr>ename = ''K'', evalue = w\<rparr> = ''new'')
   \<and> (iteration_order ord \<and> open_in fm = Some bytes
      \<and> filter (\<lambda>x. fst x = ''K'') (file_entries ''S'' bytes) = [(''K'', old)]
      \<and> writeValue_map ord fm ''S'' ''K'' ''new'' = (True, fm') \<longrightarrow>
      (\<exists>es'. readSection_map fm' ''S'' out = (True, es')
          \<and> filter (\<lambda>x. fst x = ''K'') es' = [(''K'', ''new'')])
      \<and> readValue_map fm' ''S'' ''K'' = ''new'')"
proof (intro conjI impI)
  let ?e = "\<lparr>ename = ''K'', evalue = ''new''\<rparr>"
  assume h: "readAll fs = Some secs \<and> List.find (\<lambda>s. sname s = ''S'') secs = Some b
      \<and> filter (\<lambda>x. ename x = ''K'') (entries b) = [\<lparr>ename = ''K'', evalue = old\<rparr>]
      \<and> writeEntry fs ''S'' ?e = (True, fs')"
  have wfe: "wf_entry ?e" by (simp add: wf_entry_def wf_kv_def is_header_def kv_line_def)
  obtain pre post where s: "secs = pre @ b # post" "sname b = ''S''" "\<forall>x\<in>set pre. sname x \<noteq> ''S''"
    using find_Some_split [of "\<lambda>s. sname s = ''S''" secs b] h by auto
  obtain es1 found where sv: "set_value (entries b) ?e = (es1, found)"
    by (cases "set_value (entries b) ?e")
  have f: "found \<and> filter (\<lambda>x. ename x = ''K'') es1 = [?e]"
    using set_value_single [of ?e "entries b" _ es1 found] h sv by simp
  let ?b = "b\<lparr>entries := es1\<rparr>"
  have p: "put_entry secs ''S'' ?e = pre @ ?b # post"
    using s sv f by (simp add: put_entry_first)
  have r: "readAll fs' = Some (pre @ ?b # post)"
    using writeEntry_reread(2) [of fs secs "''S''" ?e fs'] h wfe p by simp
  have fd: "List.find (\<lambda>s. sname s = ''S'') (pre @ ?b # post) = Some ?b"
    using s by (simp add: find_first)
  show "\<exists>secs' b'. readAll fs' = Some secs' \<and> List.find (\<lambda>s. sname s = ''S'') secs' = Some b'
          \<and> filter (\<lambda>x. ename x = ''K'') (entries b') = [?e]"
    using r fd f by auto
  have "section_value (pre @ ?b # post) ''S'' ''K'' = ''new''"
    using s f by (simp add: section_value_first entry_value_filter)
  then show "readEntry fs' ''S'' \<lparr>ename = ''K'', evalue = w\<rparr> = ''new''"
    using r by (simp add: readEntry_def)
next
  assume h0: "iteration_order ord \<and> open_in fm = Some bytes
      \<and> filter (\<lambda>x. fst x = ''K'') (file_entries ''S'' bytes) = [(''K'', old)]
      \<and> writeValue_map ord fm ''S'' ''K'' ''new'' = (True, fm')"
  let ?es = "file_entries ''S'' bytes"
  have "?es \<noteq> []" using h0 by auto
  then obtain m where "readAll_map fm = Some m" "map_of m ''S'' = Some ?es"
    using readAll_map_lookup [of fm bytes] h0 by auto
  then have h: "iteration_order ord \<and> readAll_map fm = Some m \<and> map_of m ''S'' = Some ?es
      \<and> filter (\<lambda>x. fst x = ''K'') ?es = [(''K'', old)]
      \<and> writeValue_map ord fm ''S'' ''K'' ''new'' = (True, fm')"
    using h0 by simp
  have wfk: "wf_kv ''K'' ''new''" by (simp add: wf_kv_def is_header_def kv_line_def)
  have rs: "snd (readSection_map fm ''S'' []) = ?es"
    using h by (simp add: readSection_map_def um_count_def um_at_def)
  obtain es1 found where sv: "set_kv (snd (readSection_map fm ''S'' [])) ''K'' ''new'' = (es1, found)"
    by (cases "set_kv (snd (readSection_map fm ''S'' [])) ''K'' ''new''")
  have f: "found \<and> filter (\<lambda>x. fst x = ''K'') es1 = [(''K'', ''new'')]"
    using set_kv_single [of "''K''" ?es _ "''new''" es1 found] h sv rs by simp
  note rr = writeValue_map_reread [of ord fm "''S''" "''K''" "''new''" es1 found fm']
  have rd: "readable fm" using h readAll_map_readable by blast
  have r: "readAll_map fm' = Some (ord (um_assign (load_map fm) ''S'' es1))"
    using rr(1) h rd wfk sv f by simp
  have mo: "map_of (ord (um_assign (load_map fm) ''S'' es1)) ''S'' = Some es1"
    using rr(2) h rd wfk sv f by simp
  have "readSection_map fm' ''S'' out = (True, es1)"
    using r mo by (simp add: readSection_map_def um_count_def um_at_def)
  then show "\<exists>es'. readSection_map fm' ''S'' out = (True, es')
          \<and> filter (\<lambda>x. fst x = ''K'') es' = [(''K'', ''new'')]"
    using f by simp
  show "readValue_map fm' ''S'' ''K'' = ''new''"
    using r mo f by (simp add: readValue_map_def um_count_def um_at_def kv_value_filter)
qed

theorem writeValue_updates_in_place_witness:
  "readAll \<lparr>content = Some ''[S]\<newline>K=old\<newline>z=1\<newline>\<newline>[T]\<newline>q=2\<newline>\<newline>'', readable = True, writable = True\<rparr>
     = Some [\<lparr>sname = ''S'', entries = [\<lparr>ename = ''K'', evalue = ''old''\<rparr>, \<lparr>ename = ''z'', evalue = ''1''\<rparr>]\<rparr>,
             \<lparr>sname = ''T'', entries = [\<lparr>ename = ''q'', evalue = ''2''\<rparr>]\<rparr>]
   \<and> writeEntry \<lparr>content = Some ''[S]\<newline>K=old\<newline>z=1\<newline>\<newline>[T]\<newline>q=2\<newline>\<newline>'', readable = True, writable = True\<rparr>
        ''S'' \<lparr>ename = ''K'', evalue = ''new''\<rparr>
     = (True, \<lparr>content = Some ''[S]\<newline>K=new\<newline>z=1\<newline>\<newline>[T]\<newline>q=2\<newline>\<newline>'', readable = True, writable = True\<rparr>)
   \<and> readEntry \<lparr>content = Some ''[S]\<newline>K=new\<newline>z=1\<newline>\<newline>[T]\<newline>q=2\<newline>\<newline>'', readable = True, writable = True\<rparr>
        ''S'' \<lparr>ename = ''K'', evalue = []\<rparr> = ''new''
   \<and> iteration_order rev
   \<and> open_in \<lparr>content = Some ''[S]\<newline>K=old\<newline>z=1\<newline>\<newline>[T]\<newline>q=2\<newline>\<newline>'', readable = True, writable = True\<rparr>
     = Some ''[S]\<newline>K=old\<newline>z=1\<newline>\<newline>[T]\<newline>q=2\<newline>\<newline>''
   \<and> file_entries ''S'' ''[S]\<newline>K=old\<newline>z=1\<newline>\<newline>[T]\<newline>q=2\<newline>\<newline>'' = [(''K'', ''old''), (''z'', ''1'')]
   \<and> writeValue_map rev \<lparr>content = Some ''[S]\<newline>K=old\<newline>z=1\<newline>\<newline>[T]\<newline>q=2\<newline>\<newline>'', readable = True, writable = True\<rparr>
        ''S'' ''K'' ''new''
     = (True, \<lparr>content = Some ''[T]\<newline>q=2\<newline>\<newline>[S]\<newline>K=new\<newline>z=1\<newline>\<newline>'', readable = True, writable = True\<rparr>)
   \<and> (\<exists>es'. readSection_map \<lparr>content = Some ''[T]\<newline>q=2\<newline>\<newline>[S]\<newline>K=new\<newline>z=1\<newline>\<newline>'', readable = True, writable = True\<rparr>
          ''S'' [] = (True, es') \<and> filter (\<lambda>x. fst x = ''K'') es' = [(''K'', ''new'')])
   \<and> readValue_map \<lparr>content = Some ''[T]\<newline>q=2\<newline>\<newline>[S]\<newline>K=new\<newline>z=1\<newline>\<newline>'', readable = True, writable = True\<rparr>
        ''S'' ''K'' = ''new''"
proof -
  let ?F = "\<lparr>content = Some ''[S]\<newline>K=old\<newline>z=1\<newline>\<newline>[T]\<newline>q=2\<newline>\<newline>'', readable = True, writable = True\<rparr>"
  let ?F1 = "\<lparr>content = Some ''[S]\<newline>K=new\<newline>z=1\<newline>\<newline>[T]\<newline>q=2\<newline>\<newline>'', readable = True, writable = True\<rparr>"
  let ?G1 = "\<lparr>content = Some ''[T]\<newline>q=2\<newline>\<newline>[S]\<newline>K=new\<newline>z=1\<newline>\<newline>'', readable = True, writable = True\<rparr>"
  let ?b = "\<lparr>sname = ''S'', entries = [\<lparr>ename = ''K'', evalue = ''old''\<rparr>, \<lparr>ename = ''z'', evalue = ''1''\<rparr>]\<rparr>"
  let ?t = "\<lparr>sname = ''T'', entries = [\<lparr>ename = ''q'', evalue = ''2''\<rparr>]\<rparr>"
  let ?es = "[(''K'', ''old''), (''z'', ''1'')]"
  have r: "readAll ?F = Some [?b, ?t]" by code_simp
  have fd: "List.find (\<lambda>s. sname s = ''S'') [?b, ?t] = Some ?b" by simp
  have fl: "filter (\<lambda>x. ename x = ''K'') (entries ?b) = [\<lparr>ename = ''K'', evalue = ''old''\<rparr>]" by simp
  have w: "writeEntry ?F ''S'' \<lparr>ename = ''K'', evalue = ''new''\<rparr> = (True, ?F1)" by code_simp
  let ?by = "''[S]\<newline>K=old\<newline>z=1\<newline>\<newline>[T]\<newline>q=2\<newline>\<newline>''"
  have o: "open_in ?F = Some ?by" by (simp add: open_in_def)
  have fe: "file_entries ''S'' ?by = ?es" by code_simp
  have flm: "filter (\<lambda>x. fst x = ''K'') (file_entries ''S'' ?by) = [(''K'', ''old'')]"
    using fe by simp
  have wm: "writeValue_map rev ?F ''S'' ''K'' ''new'' = (True, ?G1)" by code_simp
  note t = writeValue_updates_in_place [where fs = ?F and secs = "[?b, ?t]" and b = ?b
      and old = "''old''" and fs' = ?F1 and w = "[]" and ord = rev and fm = ?F
      and bytes = ?by and fm' = ?G1 and out = "[]"]
  have 1: "readEntry ?F1 ''S'' \<lparr>ename = ''K'', evalue = []\<rparr> = ''new''"
    using t [THEN conjunct1, THEN mp, OF conjI [OF r conjI [OF fd conjI [OF fl w]]], THEN conjunct2] .
  note c2 = t [THEN conjunct2, THEN mp,
      OF conjI [OF iteration_order_rev conjI [OF o conjI [OF flm wm]]]]
  show ?thesis
    using r w 1 iteration_order_rev o fe wm c2 [THEN conjunct1] c2 [THEN conjunct2]
    by (intro conjI)
qed

text \<open>
  The claim fails for the map-based implementation in two ways. On a file that can be
  written but not read, \<open>writeValue\<close> succeeds, since the results of \<open>readSection\<close> and
  \<open>readAll\<close> are not tested, and reading the section again fails. And when a second
  section \<open>"S"\<close> of the file has an entry \<open>"K"\<close> too, the two sections are one in the
  container: only the first entry \<open>"K"\<close> gets the new value, and reading the section
  again shows two entries named \<open>"K"\<close>.
\<close>

theorem writeValue_map_counterexample:
  "writeValue_map (\<lambda>m. m) \<lparr>content = Some ''[S]\<newline>K=old\<newline>\<newline>'', readable = False, writable = True\<rparr>
        ''S'' ''K'' ''new''
     = (True, \<lparr>content = Some ''[S]\<newline>K=new\<newline>\<newline>'', readable = False, writable = True\<rparr>)
   \<and> readSection_map \<lparr>content = Some ''[S]\<newline>K=new\<newline>\<newline>'', readable = False, writable = True\<rparr>
        ''S'' [] = (False, [])
   \<and> writeValue_map (\<lambda>m. m) \<lparr>content = Some ''[S]\<newline>K=old\<newline>[S]\<newline>K=other\<newline>'', readable = True, writable = True\<rparr>
        ''S'' ''K'' ''new''
     = (True, \<lparr>content = Some ''[S]\<newline>K=new\<newline>K=other\<newline>\<newline>'', readable = True, writable = True\<rparr>)
   \<and> readSection_map \<lparr>content = Some ''[S]\<newline>K=new\<newline>K=other\<newline>\<newline>'', readable = True, writable = True\<rparr>
        ''S'' [] = (True, [(''K'', ''new''), (''K'', ''other'')])"
  by code_simp

subsection \<open>Writing the same value again\<close>

lemma writeEntry_str_writeEntry:
  "writeEntry_str fs n k v = writeEntry fs n \<lparr>ename = k, evalue = v\<rparr>"
  by (cases "readAll fs") (simp_all add: writeEntry_str_def writeEntry_def)

lemma writeEntry_twice:
  assumes "nl \<notin> set n" "wf_entry e" "writeEntry fs n e = (True, fs1)" "writeEntry fs1 n e = (True, fs2)"
  shows "fs2 = fs1"
proof -
  obtain secs where r: "readAll fs = Some secs"
    using writeEntry_True [OF assms(3)] by auto
  note a = writeEntry_reread [OF r assms(1,2,3)]
  note b = writeEntry_reread [OF a(2) assms(1,2,4)]
  show ?thesis using a(1) b(1) by (simp add: put_entry_again write_out_def)
qed

lemma writeValue_map_twice:
  assumes "iteration_order ord" "nl \<notin> set n" "wf_kv k v"
    "writeValue_map ord fm n k v = (True, fm1)" "writeValue_map ord fm1 n k v = (True, fm2)"
  shows "\<exists>m1. content fm1 = Some (write_map m1) \<and> content fm2 = Some (write_map (ord m1))
           \<and> mset (ord m1) = mset m1"
proof (cases "readable fm")
  case True
  obtain es1 found where sv: "set_kv (snd (readSection_map fm n [])) k v = (es1, found)"
    by (cases "set_kv (snd (readSection_map fm n [])) k v")
  let ?es = "if \<not> found then es1 @ [(k, v)] else es1"
  let ?m1 = "ord (um_assign (load_map fm) n ?es)"
  note a = writeValue_map_reread [OF assms(1) True assms(2,3) sv assms(4)]
  have l1: "load_map fm1 = ?m1" using a(1) by (simp add: load_map_def)
  have rs: "snd (readSection_map fm1 n []) = ?es"
    using a(1,2) by (simp add: readSection_map_def um_count_def um_at_def)
  have sv2: "set_kv (snd (readSection_map fm1 n [])) k v = (?es, True)"
    using set_kv_again [OF sv] rs by simp
  have "writeSection_map ord fm1 n ?es = (True, fm2)"
    using assms(5) sv2 by (simp add: writeValue_map_def)
  then have "fm2 = write_out fm1 (write_map (ord (um_assign ?m1 n ?es)))"
    using writeSection_map_True l1 by metis
  moreover have "um_assign ?m1 n ?es = ?m1" using a(2) by (rule um_assign_same)
  ultimately have "content fm2 = Some (write_map (ord ?m1))" by (simp add: write_out_def)
  moreover have "content fm1 = Some (write_map ?m1)" using a(3) by (simp add: write_out_def)
  moreover have "mset (ord ?m1) = mset ?m1" using assms(1) by (simp add: iteration_order_def)
  ultimately show ?thesis by blast
next
  case False
  have u: "writeValue_map ord f n k v = (True, f') \<Longrightarrow> \<not> readable f \<Longrightarrow>
      f' = write_out f (write_map [(n, [(k, v)])])" for f f'
    using ord_single [OF assms(1), of "(n, [(k, v)])"]
    by (auto simp: writeValue_map_def writeSection_map_def readSection_map_def load_map_def
        readAll_map_def open_in_def Let_def split: option.splits if_splits)
  have 1: "fm1 = write_out fm (write_map [(n, [(k, v)])])" using u [OF assms(4) False] .
  then have "\<not> readable fm1" using False by (simp add: write_out_def)
  then have 2: "fm2 = write_out fm1 (write_map [(n, [(k, v)])])" using u [OF assms(5)] by simp
  have "content fm1 = Some (write_map [(n, [(k, v)])])" using 1 by (simp add: write_out_def)
  moreover have "content fm2 = Some (write_map (ord [(n, [(k, v)])]))"
    using 2 ord_single [OF assms(1)] by (simp add: write_out_def)
  moreover have "mset (ord [(n, [(k, v)])]) = mset [(n, [(k, v)])]"
    using assms(1) by (simp add: iteration_order_def)
  ultimately show ?thesis by blast
qed

text \<open>
  Claim C8, as far as it holds. In the struct-based implementation two successful calls
  of \<open>writeEntry_str\<close> (or of \<open>writeEntry\<close>) with \<open>"S"\<close>, \<open>"K"\<close>, \<open>"V"\<close> in succession leave
  the bytes of the file after the second call equal to those after the first. In the
  map-based implementation the second successful \<open>writeValue\<close> writes the same blocks of
  sections as the first, in the order in which the container filled from the first
  file is visited: the same sections and entries, and the same bytes when that order is
  the order of the first file.
\<close>

theorem writeValue_twice:
  "(writeEntry_str fs ''S'' ''K'' ''V'' = (True, fs1)
      \<and> writeEntry_str fs1 ''S'' ''K'' ''V'' = (True, fs2) \<longrightarrow> content fs2 = content fs1)
   \<and> (writeEntry fe ''S'' \<lparr>ename = ''K'', evalue = ''V''\<rparr> = (True, fe1)
      \<and> writeEntry fe1 ''S'' \<lparr>ename = ''K'', evalue = ''V''\<rparr> = (True, fe2) \<longrightarrow> content fe2 = content fe1)
   \<and> (iteration_order ord \<and> writeValue_map ord fm ''S'' ''K'' ''V'' = (True, fm1)
      \<and> writeValue_map ord fm1 ''S'' ''K'' ''V'' = (True, fm2) \<longrightarrow>
      (\<exists>m1. content fm1 = Some (write_map m1) \<and> content fm2 = Some (write_map (ord m1))
         \<and> mset (ord m1) = mset m1))"
proof (intro conjI impI)
  have wfe: "wf_entry \<lparr>ename = ''K'', evalue = ''V''\<rparr>"
    by (simp add: wf_entry_def wf_kv_def is_header_def kv_line_def)
  have nn: "nl \<notin> set ''S''" by simp
  {
    assume "writeEntry_str fs ''S'' ''K'' ''V'' = (True, fs1)
      \<and> writeEntry_str fs1 ''S'' ''K'' ''V'' = (True, fs2)"
    then show "content fs2 = content fs1"
      using writeEntry_twice [OF nn wfe, of fs fs1 fs2] by (simp add: writeEntry_str_writeEntry)
  next
    assume "writeEntry fe ''S'' \<lparr>ename = ''K'', evalue = ''V''\<rparr> = (True, fe1)
      \<and> writeEntry fe1 ''S'' \<lparr>ename = ''K'', evalue = ''V''\<rparr> = (True, fe2)"
    then show "content fe2 = content fe1"
      using writeEntry_twice [OF nn wfe, of fe fe1 fe2] by simp
  next
    assume h: "iteration_order ord \<and> writeValue_map ord fm ''S'' ''K'' ''V'' = (True, fm1)
      \<and> writeValue_map ord fm1 ''S'' ''K'' ''V'' = (True, fm2)"
    have "wf_kv ''K'' ''V''" by (simp add: wf_kv_def is_header_def kv_line_def)
    then show "\<exists>m1. content fm1 = Some (write_map m1) \<and> content fm2 = Some (write_map (ord m1))
         \<and> mset (ord m1) = mset m1"
      using writeValue_map_twice [of ord "''S''" "''K''" "''V''" fm fm1 fm2] h nn by blast
  }
qed

theorem writeValue_twice_witness:
  "writeEntry_str \<lparr>content = Some ''[A]\<newline>x=1\<newline>\<newline>'', readable = True, writable = True\<rparr> ''S'' ''K'' ''V''
     = (True, \<lparr>content = Some ''[A]\<newline>x=1\<newline>\<newline>[S]\<newline>K=V\<newline>\<newline>'', readable = True, writable = True\<rparr>)
   \<and> writeEntry_str \<lparr>content = Some ''[A]\<newline>x=1\<newline>\<newline>[S]\<newline>K=V\<newline>\<newline>'', readable = True, writable = True\<rparr> ''S'' ''K'' ''V''
     = (True, \<lparr>content = Some ''[A]\<newline>x=1\<newline>\<newline>[S]\<newline>K=V\<newline>\<newline>'', readable = True, writable = True\<rparr>)
   \<and> iteration_order (\<lambda>m. m)
   \<and> writeValue_map (\<lambda>m. m) \<lparr>content = Some ''[A]\<newline>x=1\<newline>\<newline>'', readable = True, writable = True\<rparr> ''S'' ''K'' ''V''
     = (True, \<lparr>content = Some ''[A]\<newline>x=1\<newline>\<newline>[S]\<newline>K=V\<newline>\<newline>'', readable = True, writable = True\<rparr>)
   \<and> writeValue_map (\<lambda>m. m) \<lparr>content = Some ''[A]\<newline>x=1\<newline>\<newline>[S]\<newline>K=V\<newline>\<newline>'', readable = True, writable = True\<rparr> ''S'' ''K'' ''V''
     = (True, \<lparr>content = Some ''[A]\<newline>x=1\<newline>\<newline>[S]\<newline>K=V\<newline>\<newline>'', readable = True, writable = True\<rparr>)
   \<and> (\<exists>m1. Some ''[A]\<newline>x=1\<newline>\<newline>[S]\<newline>K=V\<newline>\<newline>'' = Some (write_map m1)
         \<and> Some ''[A]\<newline>x=1\<newline>\<newline>[S]\<newline>K=V\<newline>\<newline>'' = Some (write_map m1))"
proof -
  let ?F = "\<lparr>content = Some ''[A]\<newline>x=1\<newline>\<newline>'', readable = True, writable = True\<rparr>"
  let ?F1 = "\<lparr>content = Some ''[A]\<newline>x=1\<newline>\<newline>[S]\<newline>K=V\<newline>\<newline>'', readable = True, writable = True\<rparr>"
  have w1: "writeEntry_str ?F ''S'' ''K'' ''V'' = (True, ?F1)" by code_simp
  have w2: "writeEntry_str ?F1 ''S'' ''K'' ''V'' = (True, ?F1)" by code_simp
  have e1: "writeEntry ?F ''S'' \<lparr>ename = ''K'', evalue = ''V''\<rparr> = (True, ?F1)" by code_simp
  have e2: "writeEntry ?F1 ''S'' \<lparr>ename = ''K'', evalue = ''V''\<rparr> = (True, ?F1)" by code_simp
  have m1: "writeValue_map (\<lambda>m. m) ?F ''S'' ''K'' ''V'' = (True, ?F1)" by code_simp
  have m2: "writeValue_map (\<lambda>m. m) ?F1 ''S'' ''K'' ''V'' = (True, ?F1)" by code_simp
  note t = writeValue_twice [where fs = ?F and ?fs1.0 = ?F1 and ?fs2.0 = ?F1 and fe = ?F
      and ?fe1.0 = ?F1 and ?fe2.0 = ?F1 and ord = "\<lambda>m. m" and fm = ?F and ?fm1.0 = ?F1
      and ?fm2.0 = ?F1]
  have 1: "content ?F1 = content ?F1"
    using t [THEN conjunct1, THEN mp, OF conjI [OF w1 w2]] .
  have 2: "\<exists>m1. content ?F1 = Some (write_map m1) \<and> content ?F1 = Some (write_map m1)
         \<and> mset m1 = mset m1"
    using t [THEN conjunct2, THEN conjunct2, THEN mp,
        OF conjI [OF iteration_order_id conjI [OF m1 m2]]] .
  show ?thesis using w1 w2 m1 m2 iteration_order_id 2 by simp
qed

text \<open>
  The claim fails for the map-based implementation when the container is not visited in
  the order of the file it was filled from. With libstdc++, which visits the element
  inserted last first (the order \<open>rev\<close> on two elements), the first call on a file that
  holds a section \<open>"A"\<close> writes \<open>"S"\<close> before \<open>"A"\<close>, and the second call writes \<open>"A"\<close>
  before \<open>"S"\<close>.
\<close>

theorem writeValue_twice_map_counterexample:
  "writeValue_map rev \<lparr>content = Some ''[A]\<newline>x=1\<newline>\<newline>'', readable = True, writable = True\<rparr> ''S'' ''K'' ''V''
     = (True, \<lparr>content = Some ''[S]\<newline>K=V\<newline>\<newline>[A]\<newline>x=1\<newline>\<newline>'', readable = True, writable = True\<rparr>)
   \<and> writeValue_map rev \<lparr>content = Some ''[S]\<newline>K=V\<newline>\<newline>[A]\<newline>x=1\<newline>\<newline>'', readable = True, writable = True\<rparr> ''S'' ''K'' ''V''
     = (True, \<lparr>content = Some ''[A]\<newline>x=1\<newline>\<newline>[S]\<newline>K=V\<newline>\<newline>'', readable = True, writable = True\<rparr>)
   \<and> ''[A]\<newline>x=1\<newline>\<newline>[S]\<newline>K=V\<newline>\<newline>'' \<noteq> ''[S]\<newline>K=V\<newline>\<newline>[A]\<newline>x=1\<newline>\<newline>''"
  by code_simp

end
